theory Spec2Isabelle
  imports Complex_Main "HOL-Library.Log_Nat"
begin

section \<open>JavaScript strings\<close>

text \<open>
  A JavaScript string is a sequence of UTF-16 code units. The model uses \<^typ>\<open>string\<close>,
  whose characters are the code units 0 to 255 (Latin-1); \<open>of_char\<close> is \<open>charCodeAt\<close>.
  On this range \<open>toLowerCase\<close>, \<open>trim\<close> and the regular-expression classes \<open>\w\<close> and
  \<open>\s\<close> are exactly the functions below; strings with larger code units are outside the
  model.
\<close>

definition toLowerChar :: "char \<Rightarrow> char" where
  "toLowerChar c =
     (let n = (of_char c :: nat)
      in if (65 \<le> n \<and> n \<le> 90) \<or> (192 \<le> n \<and> n \<le> 222 \<and> n \<noteq> 215)
         then char_of (n + 32) else c)"

definition toLowerCase :: "string \<Rightarrow> string" where
  "toLowerCase s = map toLowerChar s"

text \<open>The class \<open>\w\<close> (without the unicode flag): ASCII letters, digits and underscore.\<close>

definition isWordChar :: "char \<Rightarrow> bool" where
  "isWordChar c =
     (let n = (of_char c :: nat)
      in (48 \<le> n \<and> n \<le> 57) \<or> (65 \<le> n \<and> n \<le> 90) \<or> n = 95 \<or> (97 \<le> n \<and> n \<le> 122))"

text \<open>White space and line terminators, as \<open>trim\<close> and \<open>\s\<close> see them: TAB, LF, VT, FF, CR,
  space and the no-break space.\<close>

definition isSpace :: "char \<Rightarrow> bool" where
  "isSpace c = (let n = (of_char c :: nat) in (9 \<le> n \<and> n \<le> 13) \<or> n = 32 \<or> n = 160)"

definition trim :: "string \<Rightarrow> string" where
  "trim s = rev (dropWhile isSpace (rev (dropWhile isSpace s)))"

definition substring0 :: "string \<Rightarrow> nat \<Rightarrow> string" where
  "substring0 s n = take n s"

text \<open>\<open>text.match(/\b\w+\b/g) || []\<close>: the maximal runs of word characters, left to right.
  The accumulator \<open>cur\<close> holds the current run reversed.\<close>

fun matchWords :: "string \<Rightarrow> string \<Rightarrow> string list" where
  "matchWords [] cur = (if cur = [] then [] else [rev cur])"
| "matchWords (c # cs) cur =
     (if isWordChar c then matchWords cs (c # cur)
      else if cur = [] then matchWords cs []
      else rev cur # matchWords cs [])"

text \<open>\<open>s.split(re)\<close> for a regular expression \<open>re\<close> of the form \<open>[...]+\<close>, whose character
  class is \<open>sep\<close>: the pieces between maximal runs of separators. A separator run at
  either end of the string leaves an empty piece there, and the empty string splits into
  one empty piece. \<open>inRun\<close> says that the previous character was a separator.\<close>

fun splitFrom :: "(char \<Rightarrow> bool) \<Rightarrow> string \<Rightarrow> string \<Rightarrow> bool \<Rightarrow> string list" where
  "splitFrom sep [] cur inRun = [rev cur]"
| "splitFrom sep (c # cs) cur inRun =
     (if sep c then (if inRun then splitFrom sep cs [] True else rev cur # splitFrom sep cs [] True)
      else splitFrom sep cs (c # cur) False)"

definition isTerminator :: "char \<Rightarrow> bool" where
  "isTerminator c = (c = CHR ''.'' \<or> c = CHR ''!'' \<or> c = CHR ''?'')"

text \<open>\<open>s.split(/[.!?]+/)\<close>\<close>

definition splitSentences :: "string \<Rightarrow> string list" where
  "splitSentences s = splitFrom isTerminator s [] False"

text \<open>\<open>s.split(/\s+/)\<close>\<close>

definition splitWhitespace :: "string \<Rightarrow> string list" where
  "splitWhitespace s = splitFrom isSpace s [] False"

text \<open>\<open>xs.join(sep)\<close>\<close>

fun joinWith :: "string \<Rightarrow> string list \<Rightarrow> string" where
  "joinWith sep [] = []"
| "joinWith sep [x] = x"
| "joinWith sep (x # y # ys) = x @ sep @ joinWith sep (y # ys)"

text \<open>\<open>xs.slice(0, k)\<close> for an integer \<open>k\<close>: a negative \<open>k\<close> counts from the end.\<close>

definition slice0 :: "'a list \<Rightarrow> int \<Rightarrow> 'a list" where
  "slice0 xs k = (if k < 0 then take (nat (int (length xs) + k)) xs else take (nat k) xs)"

section \<open>The word hash\<close>

text \<open>
  \<open>word.split("").reduce((a, b) => { a = (a << 5) - a + b.charCodeAt(0); return a & a }, 0)\<close>.
  The accumulator is a 32-bit two's-complement integer: \<open>a << 5\<close> wraps (\<open>ToInt32\<close> of
  \<open>32 * a\<close>), the subtraction and the addition are exact, and \<open>a & a\<close> wraps the result
  again.
\<close>

definition toInt32 :: "int \<Rightarrow> int" where
  "toInt32 x = (x + 2147483648) mod 4294967296 - 2147483648"

definition charCodeAt0 :: "char \<Rightarrow> int" where
  "charCodeAt0 b = int (of_char b)"

definition hashStep :: "int \<Rightarrow> char \<Rightarrow> int" where
  "hashStep a b = (let a' = toInt32 (a * 32) - a + charCodeAt0 b in toInt32 a')"

definition hash32 :: "string \<Rightarrow> int" where
  "hash32 w = foldl hashStep 0 w"

text \<open>\<open>Math.abs(hash) % 100\<close>\<close>

definition bucket :: "string \<Rightarrow> nat" where
  "bucket w = nat (\<bar>hash32 w\<bar> mod 100)"

section \<open>The values of the frequency table and of the embedding\<close>

text \<open>
  \<open>wordFreq\<close> is created as \<open>{}\<close>, an ordinary object that inherits from
  \<open>Object.prototype\<close>. Reading \<open>wordFreq[word]\<close> therefore finds, besides the own
  properties written by the loop, the inherited ones. The words are lower-cased runs of
  \<open>\w\<close>, and the only inherited names of that shape are \<open>constructor\<close> (the function
  \<open>Object\<close>) and \<open>__proto__\<close> (an accessor that returns \<open>Object.prototype\<close>).
  So the values that occur are numbers (counts, exact below \<open>2^53\<close>), strings, and these
  two objects; \<open>None\<close> stands for \<open>undefined\<close>.
\<close>

datatype jsval = Num nat | Str string | ObjectCtor | ObjectProto

definition getProp :: "(string \<times> jsval) list \<Rightarrow> string \<Rightarrow> jsval option" where
  "getProp own w =
     (case map_of own w of
        Some v \<Rightarrow> Some v
      | None \<Rightarrow> if w = ''constructor'' then Some ObjectCtor
                else if w = ''__proto__'' then Some ObjectProto
                else None)"

fun truthy :: "jsval \<Rightarrow> bool" where
  "truthy (Num n) = (n \<noteq> 0)"
| "truthy (Str s) = (s \<noteq> [])"
| "truthy ObjectCtor = True"
| "truthy ObjectProto = True"

text \<open>\<open>x || 0\<close>\<close>

definition orZero :: "jsval option \<Rightarrow> jsval" where
  "orZero x = (case x of None \<Rightarrow> Num 0 | Some v \<Rightarrow> if truthy v then v else Num 0)"

text \<open>Number to string, for the non-negative integers below \<open>10^21\<close>: the decimal digits.\<close>

definition digitChar :: "nat \<Rightarrow> char" where
  "digitChar d = char_of (48 + d)"

fun showNat :: "nat \<Rightarrow> string" where
  "showNat n = (if n < 10 then [digitChar n] else showNat (n div 10) @ [digitChar (n mod 10)])"

declare showNat.simps [simp del]

text \<open>\<open>ToString\<close> after \<open>ToPrimitive\<close>: the function \<open>Object\<close> prints as V8 prints a
  built-in function, \<open>Object.prototype\<close> as any plain object.\<close>

fun toStr :: "jsval \<Rightarrow> string" where
  "toStr (Num n) = showNat n"
| "toStr (Str s) = s"
| "toStr ObjectCtor = ''function Object() { [native code] }''"
| "toStr ObjectProto = ''[object Object]''"

text \<open>The operator \<open>+\<close>: two numbers are added; if either operand is a string, or an object
  (whose primitive value is a string), the operands are concatenated as strings.\<close>

fun jsAdd :: "jsval \<Rightarrow> jsval \<Rightarrow> jsval" where
  "jsAdd (Num a) (Num b) = Num (a + b)"
| "jsAdd x y = Str (toStr x @ toStr y)"

text \<open>\<open>wordFreq[word] = v\<close> for a primitive \<open>v\<close>: the setter of \<open>__proto__\<close> ignores a value
  that is not an object, so no own property is created; any other name is updated in place
  or appended.\<close>

definition setProp :: "(string \<times> jsval) list \<Rightarrow> string \<Rightarrow> jsval \<Rightarrow> (string \<times> jsval) list" where
  "setProp own w v =
     (if w = ''__proto__'' then own
      else if w \<in> fst ` set own then map (\<lambda>(k, x). if k = w then (k, v) else (k, x)) own
      else own @ [(w, v)])"

text \<open>\<open>wordFreq[word] = (wordFreq[word] || 0) + 1\<close>\<close>

definition countWord :: "(string \<times> jsval) list \<Rightarrow> string \<Rightarrow> (string \<times> jsval) list" where
  "countWord own w = setProp own w (jsAdd (orZero (getProp own w)) (Num 1))"

text \<open>\<open>Object.entries\<close>: the own properties whose names are array indices (canonical
  decimal numerals up to \<open>2^32 - 2\<close>) in ascending numeric order, then the others in the
  order of their creation.\<close>

definition isDigit :: "char \<Rightarrow> bool" where
  "isDigit c = (let n = (of_char c :: nat) in 48 \<le> n \<and> n \<le> 57)"

definition parseNat :: "string \<Rightarrow> int" where
  "parseNat w = foldl (\<lambda>a c. 10 * a + (int (of_char c) - 48)) 0 w"

definition isArrayIndex :: "string \<Rightarrow> bool" where
  "isArrayIndex w =
     (w \<noteq> [] \<and> list_all isDigit w \<and> (w = ''0'' \<or> hd w \<noteq> CHR ''0'') \<and> parseNat w < 4294967295)"

definition entries :: "(string \<times> jsval) list \<Rightarrow> (string \<times> jsval) list" where
  "entries own =
     sort_key (\<lambda>(k, v). parseNat k) (filter (\<lambda>(k, v). isArrayIndex k) own)
     @ filter (\<lambda>(k, v). \<not> isArrayIndex k) own"

section \<open>The embedding\<close>

text \<open>\<open>embedding[index] += freq\<close>; the index is below 100, the length of the array.\<close>

definition addAt :: "jsval list \<Rightarrow> string \<times> jsval \<Rightarrow> jsval list" where
  "addAt embedding e = (case e of (word, freq) \<Rightarrow>
     (let index = bucket word in embedding[index := jsAdd (embedding ! index) freq]))"

text \<open>No operation of \<open>createSimpleEmbedding\<close> throws on a string argument, so its
  \<open>catch\<close> branch is never taken.\<close>

definition wordFreqOf :: "string \<Rightarrow> (string \<times> jsval) list" where
  "wordFreqOf text = foldl countWord [] (matchWords (toLowerCase text) [])"

definition createSimpleEmbedding :: "string \<Rightarrow> jsval list" where
  "createSimpleEmbedding text = foldl addAt (replicate 100 (Num 0)) (entries (wordFreqOf text))"

section \<open>Numbers\<close>

text \<open>
  A JavaScript number is an IEEE 754 double. \<open>Fin x\<close> is the finite double of value \<open>x\<close>
  and \<open>NaN\<close> is not-a-number. Every arithmetic operation returns the exact result rounded
  to the nearest double, ties to even (\<open>round53\<close>: 53 significant bits). The exponent
  range is not modelled: the numbers here are built from word counts of one string, far
  from overflow and underflow, so the infinities do not occur.
\<close>

datatype jsnum = Fin real | NaN

definition pow2 :: "int \<Rightarrow> real" where
  "pow2 e = (if 0 \<le> e then 2 ^ nat e else 1 / 2 ^ nat (- e))"

text \<open>The exponent of a positive number: \<open>pow2 (ilog2 x) \<le> x < pow2 (ilog2 x + 1)\<close>.\<close>

definition ilog2 :: "real \<Rightarrow> int" where
  "ilog2 x =
     (if 1 \<le> x then bitlen \<lfloor>x\<rfloor> - 1
      else (let b = bitlen \<lfloor>1 / x\<rfloor> in if x * pow2 (b - 1) = 1 then 1 - b else - b))"

definition roundHalfEven :: "real \<Rightarrow> int" where
  "roundHalfEven y =
     (let f = \<lfloor>y\<rfloor>; d = y - of_int f
      in if d < 1 / 2 then f else if 1 / 2 < d then f + 1 else if even f then f else f + 1)"

definition round53 :: "real \<Rightarrow> real" where
  "round53 x =
     (if x = 0 then 0
      else (let e = ilog2 \<bar>x\<bar> - 52
            in sgn x * of_int (roundHalfEven (\<bar>x\<bar> / pow2 e)) * pow2 e))"

fun fadd :: "jsnum \<Rightarrow> jsnum \<Rightarrow> jsnum" where
  "fadd (Fin x) (Fin y) = Fin (round53 (x + y))"
| "fadd _ _ = NaN"

fun fsub :: "jsnum \<Rightarrow> jsnum \<Rightarrow> jsnum" where
  "fsub (Fin x) (Fin y) = Fin (round53 (x - y))"
| "fsub _ _ = NaN"

fun fmul :: "jsnum \<Rightarrow> jsnum \<Rightarrow> jsnum" where
  "fmul (Fin x) (Fin y) = Fin (round53 (x * y))"
| "fmul _ _ = NaN"

text \<open>Division: the only division of the program is guarded against a zero divisor; for
  completeness \<open>0 / 0\<close> is \<open>NaN\<close>, and so is (in place of an infinity) \<open>x / 0\<close>.\<close>

fun fdiv :: "jsnum \<Rightarrow> jsnum \<Rightarrow> jsnum" where
  "fdiv (Fin x) (Fin y) = (if y = 0 then NaN else Fin (round53 (x / y)))"
| "fdiv _ _ = NaN"

text \<open>The integer square root, by one binary digit per step.\<close>

function isqrt :: "int \<Rightarrow> int" where
  "isqrt n =
     (if n < 1 then 0
      else (let r = 2 * isqrt (n div 4) in if (r + 1) * (r + 1) \<le> n then r + 1 else r))"
  by pat_completeness auto
termination
  by (relation "measure nat") auto

declare isqrt.simps [simp del]

text \<open>\<open>Math.sqrt\<close> returns the square root rounded to the nearest double. The significand
  is found exactly, from the integer square root of the argument scaled by a power of 4.\<close>

definition sqrt53 :: "real \<Rightarrow> real" where
  "sqrt53 x =
     (if x \<le> 0 then 0
      else (let s = ilog2 x div 2 - 52;
                y = x / pow2 (2 * s);
                m = isqrt \<lfloor>y\<rfloor>;
                c = of_int (m * m + m) + 1 / 4;
                r = (if y < c then m else if c < y then m + 1 else if even m then m else m + 1)
            in of_int r * pow2 s))"

fun fsqrt :: "jsnum \<Rightarrow> jsnum" where
  "fsqrt (Fin x) = (if x < 0 then NaN else Fin (sqrt53 x))"
| "fsqrt NaN = NaN"

text \<open>\<open>ToNumber\<close>, applied by \<open>*\<close> to each operand. A count is itself. A string converts to
  \<open>NaN\<close> unless it spells a numeric literal; the strings that \<open>createSimpleEmbedding\<close> stores
  all contain the text of the function \<open>Object\<close>, so they convert to \<open>NaN\<close>, as the two
  objects do. \<open>undefined\<close> (\<open>None\<close>, an index past the end of an array) converts to \<open>NaN\<close>.\<close>

fun toNumber :: "jsval \<Rightarrow> jsnum" where
  "toNumber (Num n) = Fin (of_nat n)"
| "toNumber _ = NaN"

section \<open>Cosine similarity\<close>

text \<open>\<open>a.reduce((sum, val, i) => sum + val * b[i], 0)\<close>: the loop runs over \<open>a\<close>; \<open>b\<close> is the
  part of the second array from the current index on (\<open>acc\<close> is \<open>sum\<close>), and past its end \<open>b[i]\<close> is
  \<open>undefined\<close>.\<close>

fun dotFrom :: "jsnum \<Rightarrow> jsval list \<Rightarrow> jsval list \<Rightarrow> jsnum" where
  "dotFrom acc [] b = acc"
| "dotFrom acc (val # a) b =
     dotFrom (fadd acc (fmul (toNumber val) (case b of [] \<Rightarrow> NaN | bi # _ \<Rightarrow> toNumber bi))) a (tl b)"

text \<open>\<open>a.reduce((sum, val) => sum + val * val, 0)\<close>\<close>

definition sumSquares :: "jsval list \<Rightarrow> jsnum" where
  "sumSquares a = foldl (\<lambda>acc val. fadd acc (fmul (toNumber val) (toNumber val))) (Fin 0) a"

text \<open>No operation of \<open>cosineSimilarity\<close> throws on two arrays, so its \<open>catch\<close> branch is
  never taken. \<open>NaN === 0\<close> is false.\<close>

definition cosineSimilarity :: "jsval list \<Rightarrow> jsval list \<Rightarrow> jsnum" where
  "cosineSimilarity a b =
     (let dotProduct = dotFrom (Fin 0) a b;
          magnitudeA = fsqrt (sumSquares a);
          magnitudeB = fsqrt (sumSquares b)
      in if magnitudeA = Fin 0 \<or> magnitudeB = Fin 0 then Fin 0
         else fdiv dotProduct (fmul magnitudeA magnitudeB))"

section \<open>The passage selector\<close>

record scored =
  sentence :: string
  similarity :: jsnum

text \<open>The comparator \<open>(a, b) => b.similarity - a.similarity\<close>\<close>

definition compareSimilarity :: "scored \<Rightarrow> scored \<Rightarrow> jsnum" where
  "compareSimilarity a b = fsub (similarity b) (similarity a)"

text \<open>
  \<open>Array.prototype.sort\<close> with a comparator. The sort reads a comparator result \<open>v\<close> only
  through \<open>v < 0\<close> and \<open>v > 0\<close>, with \<open>NaN\<close> taken as \<open>0\<close>; it is stable, so the model is the
  stable insertion sort: an element stays in front of a later one unless the comparator
  puts it behind. This is the order the language defines whenever the comparator is
  consistent, that is here, whenever no similarity or every similarity is \<open>NaN\<close>. For an
  inconsistent comparator (some similarities \<open>NaN\<close>, others not) the language leaves the order
  to the implementation, always a permutation of the elements; there the order of the
  model need not be the one of a given engine, and no statement below depends on it.
\<close>

definition positive :: "jsnum \<Rightarrow> bool" where
  "positive v = (case v of Fin x \<Rightarrow> 0 < x | NaN \<Rightarrow> False)"

fun insertSorted :: "('a \<Rightarrow> 'a \<Rightarrow> jsnum) \<Rightarrow> 'a \<Rightarrow> 'a list \<Rightarrow> 'a list" where
  "insertSorted cmp x [] = [x]"
| "insertSorted cmp x (y # ys) =
     (if positive (cmp x y) then y # insertSorted cmp x ys else x # y # ys)"

definition jsSort :: "('a \<Rightarrow> 'a \<Rightarrow> jsnum) \<Rightarrow> 'a list \<Rightarrow> 'a list" where
  "jsSort cmp xs = foldr (insertSorted cmp) xs []"

text \<open>\<open>documentText.split(/[.!?]+/).filter((s) => s.trim().length > 30)\<close>\<close>

definition qualifyingSentences :: "string \<Rightarrow> string list" where
  "qualifyingSentences documentText =
     filter (\<lambda>s. length (trim s) > 30) (splitSentences documentText)"

text \<open>No operation of \<open>findRelevantPassages\<close> throws on string arguments, so its \<open>catch\<close>
  branch is never taken. \<open>topK\<close> is an integer; the caller leaves it at its default 5.\<close>

definition findRelevantPassages :: "string \<Rightarrow> string \<Rightarrow> int \<Rightarrow> string list" where
  "findRelevantPassages query documentText topK =
     (let queryEmbedding = createSimpleEmbedding query;
          sentences = qualifyingSentences documentText
      in if length sentences = 0 then [substring0 documentText 1000]
         else (let similarities =
                     map (\<lambda>s. \<lparr> sentence = trim s,
                                similarity = cosineSimilarity queryEmbedding (createSimpleEmbedding s) \<rparr>)
                         sentences
               in map sentence (slice0 (jsSort compareSimilarity similarities) topK)))"

section \<open>Regular expressions\<close>

text \<open>
  The entity extractor matches JavaScript regular expressions against the text. They are
  built from character classes, the assertion \<open>\b\<close>, concatenation, alternation and the
  greedy quantifiers \<open>?\<close>, \<open>*\<close>, \<open>+\<close> and \<open>{m,n}\<close>; the groups serve only as brackets, since
  the extractor reads nothing but the whole match and its index.
\<close>

text \<open>The character classes that occur: a single character; a letter under the flag \<open>i\<close>
  (\<open>AnyCase\<close>, for an ASCII letter: the letter in either case); \<open>\d\<close>; \<open>\s\<close>; \<open>[A-Z]\<close>; \<open>[a-z]\<close>;
  \<open>[\d,]\<close>; \<open>[a-zA-Z\s&]\<close>.\<close>

datatype charClass =
    Only char
  | AnyCase char
  | Digit
  | Space
  | Upper
  | Lower
  | DigitOrComma
  | NameChar

definition isUpper :: "char \<Rightarrow> bool" where
  "isUpper c = (let n = (of_char c :: int) in 65 \<le> n \<and> n \<le> 90)"

definition isLower :: "char \<Rightarrow> bool" where
  "isLower c = (let n = (of_char c :: int) in 97 \<le> n \<and> n \<le> 122)"

definition upperCase :: "char \<Rightarrow> char" where
  "upperCase c = (let n = (of_char c :: int) in if 97 \<le> n \<and> n \<le> 122 then char_of (n - 32) else c)"

fun member :: "charClass \<Rightarrow> char \<Rightarrow> bool" where
  "member (Only x) c = (c = x)"
| "member (AnyCase x) c = (upperCase c = upperCase x)"
| "member Digit c = isDigit c"
| "member Space c = isSpace c"
| "member Upper c = isUpper c"
| "member Lower c = isLower c"
| "member DigitOrComma c = (isDigit c \<or> c = CHR '','')"
| "member NameChar c = (isLower c \<or> isUpper c \<or> isSpace c \<or> c = CHR ''&'')"

datatype regex =
    Eps
  | Class charClass
  | WordBoundary
  | Seq regex regex
  | Alt regex regex
  | Star regex

text \<open>
  A position in the text is the rest of the text from there on, together with whether the
  character before it is a word character (at the start of the text there is none).
  \<open>matchEnds r p\<close> lists the positions at which a match of \<open>r\<close> that starts at \<open>p\<close> can
  end, in the order in which the backtracking matcher of the language tries them: the
  left alternative before the right one, and one more iteration of a greedy quantifier
  before none. The matcher takes the first end it finds, so the match of a whole
  expression at \<open>p\<close> ends at the head of the list, and there is no match at \<open>p\<close> when the
  list is empty. An iteration of \<open>*\<close> that consumes nothing is rejected by the language;
  every other iteration shortens the rest, so the rest itself bounds their number
  (\<open>fuel\<close>).
\<close>

type_synonym position = "bool \<times> string"

primrec iterate :: "'f list \<Rightarrow> (position \<Rightarrow> position list) \<Rightarrow> position \<Rightarrow> position list" where
  "iterate [] step p = [p]"
| "iterate (x # fuel) step p =
     concat (map (iterate fuel step) (filter (\<lambda>p'. length (snd p') < length (snd p)) (step p)))
     @ [p]"

primrec matchEnds :: "regex \<Rightarrow> position \<Rightarrow> position list" where
  "matchEnds Eps p = [p]"
| "matchEnds (Class cl) p =
     (case snd p of [] \<Rightarrow> [] | c # cs \<Rightarrow> if member cl c then [(isWordChar c, cs)] else [])"
| "matchEnds WordBoundary p =
     (if fst p \<noteq> (case snd p of [] \<Rightarrow> False | c # cs \<Rightarrow> isWordChar c) then [p] else [])"
| "matchEnds (Seq r1 r2) p = concat (map (matchEnds r2) (matchEnds r1 p))"
| "matchEnds (Alt r1 r2) p = matchEnds r1 p @ matchEnds r2 p"
| "matchEnds (Star r) p = iterate (snd p) (matchEnds r) p"

text \<open>
  \<open>while ((match = regex.exec(text)) !== null)\<close> for a regular expression with the flag
  \<open>g\<close>: the matches from left to right, each searched from the end of the one before,
  with \<open>match[0]\<close> and \<open>match.index\<close>. Here \<open>s\<close> is the rest of the text at index \<open>i\<close>. After
  an empty match \<open>exec\<close> would search from the same index again and the loop would not end;
  no expression of the catalogue matches the empty string (\<open>catalogue_matches_consume\<close>
  below), so that branch, which ends the list, is never taken.
\<close>

fun execAll :: "regex \<Rightarrow> bool \<Rightarrow> string \<Rightarrow> nat \<Rightarrow> (string \<times> nat) list" where
  "execAll r w s i =
     (case matchEnds r (w, s) of
        [] \<Rightarrow> (case s of [] \<Rightarrow> [] | c # cs \<Rightarrow> execAll r (isWordChar c) cs (i + 1))
      | p # _ \<Rightarrow>
          (if length (snd p) < length s
           then (take (length s - length (snd p)) s, i)
                  # execAll r (fst p) (snd p) (i + (length s - length (snd p)))
           else []))"

declare execAll.simps [simp del]

definition matchesOf :: "regex \<Rightarrow> string \<Rightarrow> (string \<times> nat) list" where
  "matchesOf r txt = execAll r False txt 0"

text \<open>The least number of characters that a match consumes.\<close>

primrec minLength :: "regex \<Rightarrow> nat" where
  "minLength Eps = 0"
| "minLength (Class cl) = 1"
| "minLength WordBoundary = 0"
| "minLength (Seq r1 r2) = minLength r1 + minLength r2"
| "minLength (Alt r1 r2) = min (minLength r1) (minLength r2)"
| "minLength (Star r) = 0"

text \<open>Notation of the expressions: a character, a sequence, a string, a string under the
  flag \<open>i\<close>, a choice, \<open>r?\<close> and \<open>r+\<close>.\<close>

definition lit :: "char \<Rightarrow> regex" where
  "lit c = Class (Only c)"

definition seqs :: "regex list \<Rightarrow> regex" where
  "seqs rs = foldr Seq rs Eps"

definition str :: "string \<Rightarrow> regex" where
  "str s = seqs (map (\<lambda>c. Class (Only c)) s)"

definition strI :: "string \<Rightarrow> regex" where
  "strI s = seqs (map (\<lambda>c. Class (AnyCase c)) s)"

fun alts :: "regex list \<Rightarrow> regex" where
  "alts [] = Eps"
| "alts [r] = r"
| "alts (r # rs) = Alt r (alts rs)"

definition opt :: "regex \<Rightarrow> regex" where
  "opt r = Alt r Eps"

definition plus :: "regex \<Rightarrow> regex" where
  "plus r = Seq r (Star r)"

section \<open>The entity extractor\<close>

text \<open>\<open>[A-Z][a-z]+\<close>\<close>

definition capitalized :: regex where
  "capitalized = Seq (Class Upper) (plus (Class Lower))"

text \<open>\<open>January|February|...|December\<close>\<close>

definition month :: regex where
  "month = alts (map str [''January'', ''February'', ''March'', ''April'', ''May'', ''June'', ''July'',
     ''August'', ''September'', ''October'', ''November'', ''December''])"

text \<open>\<open>\d{1,2}\<close> and \<open>\d{4}\<close>\<close>

definition day :: regex where
  "day = Seq (Class Digit) (opt (Class Digit))"

definition year :: regex where
  "year = seqs [Class Digit, Class Digit, Class Digit, Class Digit]"

text \<open>\<open>\d+(?:,\d{3})*(?:\.\d{2})?\<close>\<close>

definition amount :: regex where
  "amount = seqs [plus (Class Digit),
                  Star (seqs [lit CHR '','', Class Digit, Class Digit, Class Digit]),
                  opt (seqs [lit CHR ''.'', Class Digit, Class Digit])]"

text \<open>
  \<open>/\b([A-Z][a-z]+ [A-Z][a-z]+(?:\s[A-Z][a-z]+)?)\b/g\<close>,
  \<open>/\b(Mr\.|Mrs\.|Ms\.|Dr\.|Prof\.) ([A-Z][a-z]+ [A-Z][a-z]+)\b/g\<close>,
  \<open>/\b([A-Z][A-Z]+)\s+([A-Z][a-z]+)\b/g\<close>
\<close>

definition personPatterns :: "regex list" where
  "personPatterns =
     [seqs [WordBoundary, capitalized, lit CHR '' '', capitalized, opt (Seq (Class Space) capitalized),
            WordBoundary],
      seqs [WordBoundary, alts (map str [''Mr.'', ''Mrs.'', ''Ms.'', ''Dr.'', ''Prof.'']), lit CHR '' '',
            capitalized, lit CHR '' '', capitalized, WordBoundary],
      seqs [WordBoundary, Class Upper, plus (Class Upper), plus (Class Space), capitalized,
            WordBoundary]]"

text \<open>
  \<open>/\b(\d{1,2}\/\d{1,2}\/\d{4})\b/g\<close>,
  \<open>/\b(\d{1,2}-\d{1,2}-\d{4})\b/g\<close>,
  \<open>/\b(January|...|December)\s+\d{1,2},?\s+\d{4}\b/g\<close>,
  \<open>/\b(\d{1,2}(?:st|nd|rd|th)?\s+(?:of\s+)?(?:January|...|December)\s+\d{4})\b/g\<close>
\<close>

definition datePatterns :: "regex list" where
  "datePatterns =
     [seqs [WordBoundary, day, lit CHR ''/'', day, lit CHR ''/'', year, WordBoundary],
      seqs [WordBoundary, day, lit CHR ''-'', day, lit CHR ''-'', year, WordBoundary],
      seqs [WordBoundary, month, plus (Class Space), day, opt (lit CHR '',''), plus (Class Space), year,
            WordBoundary],
      seqs [WordBoundary, day, opt (alts (map str [''st'', ''nd'', ''rd'', ''th''])), plus (Class Space),
            opt (Seq (str ''of'') (plus (Class Space))), month, plus (Class Space), year,
            WordBoundary]]"

text \<open>
  \<open>/\$[\d,]+\.?\d*/g\<close>,
  \<open>/\b(\d+(?:,\d{3})*(?:\.\d{2})?\s*dollars?)\b/gi\<close>,
  \<open>/\b(USD\s*\$?[\d,]+\.?\d*)\b/gi\<close>,
  \<open>/\b(\d+(?:,\d{3})*(?:\.\d{2})?\s*(?:USD|usd))\b/gi\<close>
\<close>

definition moneyPatterns :: "regex list" where
  "moneyPatterns =
     [seqs [lit CHR ''$'', plus (Class DigitOrComma), opt (lit CHR ''.''), Star (Class Digit)],
      seqs [WordBoundary, amount, Star (Class Space), strI ''dollar'', opt (strI ''s''), WordBoundary],
      seqs [WordBoundary, strI ''USD'', Star (Class Space), opt (lit CHR ''$''), plus (Class DigitOrComma),
            opt (lit CHR ''.''), Star (Class Digit), WordBoundary],
      seqs [WordBoundary, amount, Star (Class Space), Alt (strI ''USD'') (strI ''usd''), WordBoundary]]"

text \<open>
  \<open>/\b([A-Z][a-zA-Z\s&]+ (?:Inc\.|LLC|Corp\.|Corporation|Company|Co\.|Ltd\.|Limited|LLP|LP))\b/g\<close>,
  \<open>/\b([A-Z][a-zA-Z\s&]+ (?:Bank|Trust|Insurance|Holdings|Group|Partners|Associates|Firm))\b/g\<close>,
  \<open>/\b(The [A-Z][a-zA-Z\s&]+ (?:Inc\.|LLC|Corp\.|Corporation|Company|Co\.))\b/g\<close>
\<close>

definition orgPatterns :: "regex list" where
  "orgPatterns =
     [seqs [WordBoundary, Class Upper, plus (Class NameChar), lit CHR '' '',
            alts (map str [''Inc.'', ''LLC'', ''Corp.'', ''Corporation'', ''Company'', ''Co.'', ''Ltd.'',
                           ''Limited'', ''LLP'', ''LP'']), WordBoundary],
      seqs [WordBoundary, Class Upper, plus (Class NameChar), lit CHR '' '',
            alts (map str [''Bank'', ''Trust'', ''Insurance'', ''Holdings'', ''Group'', ''Partners'',
                           ''Associates'', ''Firm'']), WordBoundary],
      seqs [WordBoundary, str ''The '', Class Upper, plus (Class NameChar), lit CHR '' '',
            alts (map str [''Inc.'', ''LLC'', ''Corp.'', ''Corporation'', ''Company'', ''Co.'']),
            WordBoundary]]"

text \<open>
  \<open>/\b(Contract|Agreement|License|Lease|Deed|Will|Testament|Covenant|Indenture|Mortgage|Lien)\b/gi\<close>,
  \<open>/\b(Plaintiff|Defendant|Petitioner|Respondent|Appellant|Appellee)\b/gi\<close>,
  \<open>/\b(Court|Tribunal|Judge|Justice|Magistrate|Clerk)\b/gi\<close>
\<close>

definition legalPatterns :: "regex list" where
  "legalPatterns =
     [seqs [WordBoundary,
            alts (map strI [''Contract'', ''Agreement'', ''License'', ''Lease'', ''Deed'', ''Will'',
                            ''Testament'', ''Covenant'', ''Indenture'', ''Mortgage'', ''Lien'']),
            WordBoundary],
      seqs [WordBoundary,
            alts (map strI [''Plaintiff'', ''Defendant'', ''Petitioner'', ''Respondent'', ''Appellant'',
                            ''Appellee'']),
            WordBoundary],
      seqs [WordBoundary,
            alts (map strI [''Court'', ''Tribunal'', ''Judge'', ''Justice'', ''Magistrate'', ''Clerk'']),
            WordBoundary]]"

text \<open>An entity; its fields \<open>text\<close> and \<open>end\<close> are \<open>entityText\<close> and \<open>endIndex\<close> here.\<close>

record entity =
  entityText :: string
  label :: string
  start :: nat
  endIndex :: nat

text \<open>\<open>fullMatch.match(/^\d/)\<close>\<close>

definition startsWithDigit :: "string \<Rightarrow> bool" where
  "startsWithDigit s = (case s of [] \<Rightarrow> False | c # cs \<Rightarrow> isDigit c)"

text \<open>The matches of the person expressions are trimmed, and kept when longer than 3
  characters and not starting with a digit.\<close>

definition personEntities :: "string \<Rightarrow> entity list" where
  "personEntities txt =
     concat (map (\<lambda>pattern.
       concat (map (\<lambda>(m, index).
           (let fullMatch = trim m
            in if length fullMatch > 3 \<and> \<not> startsWithDigit fullMatch
               then [\<lparr> entityText = fullMatch, label = ''PERSON'', start = index,
                       endIndex = index + length fullMatch \<rparr>]
               else []))
         (matchesOf pattern txt)))
       personPatterns)"

text \<open>The matches of the other expressions are kept as they are.\<close>

definition entitiesOf :: "string \<Rightarrow> regex list \<Rightarrow> string \<Rightarrow> entity list" where
  "entitiesOf l patterns txt =
     concat (map (\<lambda>pattern.
       map (\<lambda>(m, index). \<lparr> entityText = m, label = l, start = index, endIndex = index + length m \<rparr>)
         (matchesOf pattern txt))
       patterns)"

text \<open>\<open>filter((entity, index, self) => index === self.findIndex((e) => e.text === entity.text
  && e.label === entity.label))\<close>: an entity is kept unless an earlier one (\<open>seen\<close>) has its
  text and label.\<close>

fun firstOccurrences :: "entity list \<Rightarrow> entity list \<Rightarrow> entity list" where
  "firstOccurrences seen [] = []"
| "firstOccurrences seen (e # es) =
     (if \<exists>x \<in> set seen. entityText x = entityText e \<and> label x = label e
      then firstOccurrences (seen @ [e]) es
      else e # firstOccurrences (seen @ [e]) es)"

text \<open>
  \<open>extractLegalEntities\<close>: nothing for the empty text; otherwise the entities of the five
  groups in the order persons, dates, amounts of money, organizations, legal terms, without
  repetitions, and sorted by \<open>(a, b) => a.start - b.start\<close>. That comparator is consistent
  and the sort of the language is stable, which is the stable insertion sort \<open>sort_key\<close>.
  No operation of the function throws on a string, so its \<open>catch\<close> branch is never taken.
\<close>

definition extractLegalEntities :: "string \<Rightarrow> entity list" where
  "extractLegalEntities txt =
     (if txt = [] then []
      else (let entities = personEntities txt
                  @ entitiesOf ''DATE'' datePatterns txt
                  @ entitiesOf ''MONEY'' moneyPatterns txt
                  @ entitiesOf ''ORGANIZATION'' orgPatterns txt
                  @ entitiesOf ''LEGAL_TERM'' legalPatterns txt
            in sort_key start (firstOccurrences [] entities)))"

section \<open>The provider chain\<close>

text \<open>
  The two credentials are read from the environment at call time; \<open>None\<close> is an unset
  variable. \<open>!key\<close> holds for an unset variable and for the empty string.
\<close>

record env =
  GEMINI_API_KEY :: "string option"
  OPENROUTER_API_KEY :: "string option"

definition absent :: "string option \<Rightarrow> bool" where
  "absent key = (case key of None \<Rightarrow> True | Some k \<Rightarrow> k = [])"

text \<open>
  A request is one \<open>fetch\<close> to a provider. The request bodies are fixed texts around the
  interpolated values, which are all a request is known by here: the document-derived
  content (the text prefix for a summary, the joined passages for a chat) and, for a chat,
  the user's message.
\<close>

datatype request =
    GeminiSummary string
  | OpenRouterSummary string
  | GeminiChat string string
  | OpenRouterChat string string

text \<open>
  What a \<open>fetch\<close> comes to: it throws (\<open>NetworkError\<close>), it answers with a status that is
  not ok (\<open>NotOk\<close>), or it answers ok and the text is looked up in the body, \<open>Ok None\<close> when
  the body cannot be parsed or has no text at the expected path. The remote services are
  a parameter \<open>remote\<close> of the chain. The chain returns its string together with the list of
  the requests it sent, in order.
\<close>

datatype response = NetworkError | NotOk | Ok "string option"

text \<open>\<open>if (summary) return summary\<close>: a text that is present and not empty\<close>

definition extractedText :: "response \<Rightarrow> string option" where
  "extractedText r = (case r of Ok (Some t) \<Rightarrow> if t = [] then None else Some t | _ \<Rightarrow> None)"

subsection \<open>The local summary\<close>

text \<open>The texts of the entities with a given label, in the order of the entities.\<close>

definition textsLabelled :: "string \<Rightarrow> entity list \<Rightarrow> string list" where
  "textsLabelled l entities = map entityText (filter (\<lambda>e. label e = l) entities)"

definition entitySection :: "string \<Rightarrow> string list \<Rightarrow> string" where
  "entitySection title xs =
     (if length xs > 0 then title @ '': '' @ joinWith '', '' (slice0 xs 5) @ ''\<newline>\<newline>'' else [])"

text \<open>No operation of \<open>generateBasicSummary\<close> throws on a string, so its \<open>catch\<close> branch is
  never taken.\<close>

definition generateBasicSummary :: "string \<Rightarrow> string" where
  "generateBasicSummary txt =
     (let words = splitWhitespace txt;
          sentences = filter (\<lambda>s. length (trim s) > 10) (splitSentences txt);
          entities = extractLegalEntities txt;
          persons = textsLabelled ''PERSON'' entities;
          organizations = textsLabelled ''ORGANIZATION'' entities;
          dates = textsLabelled ''DATE'' entities;
          amounts = textsLabelled ''MONEY'' entities
      in ''DOCUMENT ANALYSIS SUMMARY\<newline>\<newline>''
         @ ''Document Length: '' @ showNat (length words) @ '' words, ''
         @ showNat (length sentences) @ '' sentences\<newline>\<newline>''
         @ entitySection ''Key Individuals'' persons
         @ entitySection ''Organizations'' organizations
         @ entitySection ''Important Dates'' dates
         @ entitySection ''Financial Amounts'' amounts
         @ ''Content Preview: '' @ substring0 (joinWith ''. '' (slice0 sentences 3)) 500 @ ''...'')"

subsection \<open>Summarization\<close>

definition generateSummary ::
    "env \<Rightarrow> (request \<Rightarrow> response) \<Rightarrow> string \<Rightarrow> string \<times> request list" where
  "generateSummary e remote txt =
     (if absent (GEMINI_API_KEY e) then (generateBasicSummary txt, [])
      else (let r1 = GeminiSummary (substring0 txt 6000)
            in case extractedText (remote r1) of
                 Some summary \<Rightarrow> (summary, [r1])
               | None \<Rightarrow>
                   (if \<not> absent (OPENROUTER_API_KEY e)
                    then (let r2 = OpenRouterSummary (substring0 txt 6000)
                          in case extractedText (remote r2) of
                               Some summary \<Rightarrow> (summary, [r1, r2])
                             | None \<Rightarrow> (generateBasicSummary txt, [r1, r2]))
                    else (generateBasicSummary txt, [r1]))))"

subsection \<open>Chat\<close>

definition notConfiguredResponse :: "string \<Rightarrow> string \<Rightarrow> string" where
  "notConfiguredResponse message context =
     ''Based on the document context, I can see information related to your question about ''
     @ [CHR 0x22] @ message @ [CHR 0x22]
     @ ''. However, the AI service is not configured. Please set up your GEMINI_API_KEY in the .env file to get detailed AI-powered responses.''
     @ ''\<newline>\<newline>Here's the relevant context from the document:\<newline>''
     @ substring0 context 500 @ ''...''"

definition contextResponse :: "string \<Rightarrow> string \<Rightarrow> string" where
  "contextResponse message context =
     ''Based on your question about '' @ [CHR 0x22] @ message @ [CHR 0x22]
     @ '', here's what I found in the document:\<newline>\<newline>''
     @ context
     @ ''\<newline>\<newline>Note: AI services are currently unavailable. This is a basic context-based response. For detailed AI analysis, please configure your API keys in the .env file.''"

definition generateChatResponse ::
    "env \<Rightarrow> (request \<Rightarrow> response) \<Rightarrow> string \<Rightarrow> string \<Rightarrow> string \<times> request list" where
  "generateChatResponse e remote message documentText =
     (let relevantPassages = findRelevantPassages message documentText 5;
          context = joinWith ''\<newline>\<newline>'' relevantPassages
      in if absent (GEMINI_API_KEY e) then (notConfiguredResponse message context, [])
         else (let r1 = GeminiChat context message
               in case extractedText (remote r1) of
                    Some chatResponse \<Rightarrow> (chatResponse, [r1])
                  | None \<Rightarrow>
                      (if \<not> absent (OPENROUTER_API_KEY e)
                       then (let r2 = OpenRouterChat context message
                             in case extractedText (remote r2) of
                                  Some chatResponse \<Rightarrow> (chatResponse, [r1, r2])
                                | None \<Rightarrow> (contextResponse message context, [r1, r2]))
                       else (contextResponse message context, [r1]))))"

section \<open>Reading requests, and the inputs of the examples\<close>

text \<open>The document-derived content that a request carries.\<close>

fun documentContent :: "request \<Rightarrow> string" where
  "documentContent (GeminiSummary d) = d"
| "documentContent (OpenRouterSummary d) = d"
| "documentContent (GeminiChat c m) = c"
| "documentContent (OpenRouterChat c m) = c"

definition noKeys :: env where
  "noKeys = \<lparr> GEMINI_API_KEY = None, OPENROUTER_API_KEY = None \<rparr>"

definition onlyOpenRouterKey :: env where
  "onlyOpenRouterKey = \<lparr> GEMINI_API_KEY = None, OPENROUTER_API_KEY = Some ''sk-or-v1-key'' \<rparr>"

definition bothKeys :: env where
  "bothKeys = \<lparr> GEMINI_API_KEY = Some ''AIza-key'', OPENROUTER_API_KEY = Some ''sk-or-v1-key'' \<rparr>"

text \<open>A remote side that answers every request, and one that cannot be reached.\<close>

definition answering :: "request \<Rightarrow> response" where
  "answering r = Ok (Some ''An answer.'')"

definition unreachable :: "request \<Rightarrow> response" where
  "unreachable r = NetworkError"

text \<open>A document of 7000 characters without a sentence terminator.\<close>

definition longParagraph :: string where
  "longParagraph = replicate 7000 (CHR ''a'')"

text \<open>The document and the query of the specification's Scenario B.\<close>

definition scenarioDocument :: string where
  "scenarioDocument =
     ''John Smith signed the agreement. Payment of $500 is due January 1, 2024. The warranty expires after one year.''"

definition scenarioQuery :: string where
  "scenarioQuery = ''What payment is due?''"

text \<open>Vectors of counts: the exact dot product and sum of squares, and the four embeddings
  of Scenario B.\<close>

definition natDot :: "nat list \<Rightarrow> nat list \<Rightarrow> nat" where
  "natDot ns ms = sum_list (map (\<lambda>(n, m). n * m) (zip ns ms))"

definition normSq :: "nat list \<Rightarrow> nat" where
  "normSq ns = sum_list (map (\<lambda>n. n * n) ns)"

definition queryCounts :: "nat list" where
  "queryCounts = (replicate 100 0)[28 := 1, 38 := 1, 70 := 1, 96 := 1]"

definition firstCounts :: "nat list" where
  "firstCounts = (replicate 100 0)[51 := 1, 39 := 1, 12 := 1, 1 := 1, 6 := 1]"

definition secondCounts :: "nat list" where
  "secondCounts = (replicate 100 0)[38 := 1, 43 := 1, 69 := 1, 70 := 1, 28 := 1, 46 := 1, 49 := 1, 80 := 1]"

definition thirdCounts :: "nat list" where
  "thirdCounts = (replicate 100 0)[1 := 1, 60 := 1, 4 := 1, 40 := 1, 82 := 1, 93 := 1]"

text \<open>Predicates for stating the properties: a value that is a number, the order of two
  similarities that are numbers, and the similarity of a passage to a query.\<close>

definition isNum :: "jsval \<Rightarrow> bool" where
  "isNum v = (case v of Num n \<Rightarrow> True | _ \<Rightarrow> False)"

definition numGe :: "jsnum \<Rightarrow> jsnum \<Rightarrow> bool" where
  "numGe a b = (case a of Fin x \<Rightarrow> (case b of Fin y \<Rightarrow> y \<le> x | NaN \<Rightarrow> False) | NaN \<Rightarrow> False)"

definition similarityTo :: "string \<Rightarrow> string \<Rightarrow> jsnum" where
  "similarityTo q s = cosineSimilarity (createSimpleEmbedding q) (createSimpleEmbedding s)"

text \<open>The vector with three components 1 and 97 components 0.\<close>

definition threeOnesCounts :: "nat list" where
  "threeOnesCounts = [1, 1, 1] @ replicate 97 0"

definition threeOnes :: "jsval list" where
  "threeOnes = map Num threeOnesCounts"

text \<open>The count held by a value of the frequency table or of the embedding (0 for a value
  that is not a number), and the totals of a table and of a vector.\<close>

definition countOf :: "jsval \<Rightarrow> nat" where
  "countOf v = (case v of Num n \<Rightarrow> n | _ \<Rightarrow> 0)"

definition tableTotal :: "(string \<times> jsval) list \<Rightarrow> nat" where
  "tableTotal own = sum_list (map (\<lambda>(k, v). countOf v) own)"

text \<open>A frequency table whose keys are distinct and whose values are all numbers.\<close>

definition counting :: "(string \<times> jsval) list \<Rightarrow> bool" where
  "counting own = (distinct (map fst own) \<and> (\<forall>v \<in> snd ` set own. isNum v))"

definition vectorTotal :: "jsval list \<Rightarrow> nat" where
  "vectorTotal embedding = sum_list (map countOf embedding)"

text \<open>A count, or a string that contains the letter \<open>f\<close> and so spells no numeric literal.\<close>

definition countOrText :: "jsval \<Rightarrow> bool" where
  "countOrText v = (case v of Num n \<Rightarrow> True | Str s \<Rightarrow> CHR ''f'' \<in> set s | _ \<Rightarrow> False)"

section \<open>Properties of the regular expressions\<close>

text \<open>The character classes on the code unit as an integer, for evaluation.\<close>

lemma of_char_int: "(of_char c :: int) = int (of_char c)"
  by (rule of_nat_of_char [symmetric])

lemma isWordChar_code [code]:
  "isWordChar c =
     (let n = (of_char c :: int)
      in (48 \<le> n \<and> n \<le> 57) \<or> (65 \<le> n \<and> n \<le> 90) \<or> n = 95 \<or> (97 \<le> n \<and> n \<le> 122))"
  unfolding isWordChar_def Let_def of_char_int by simp

lemma isSpace_code [code]:
  "isSpace c = (let n = (of_char c :: int) in (9 \<le> n \<and> n \<le> 13) \<or> n = 32 \<or> n = 160)"
  unfolding isSpace_def Let_def of_char_int by simp

lemma isDigit_code [code]:
  "isDigit c = (let n = (of_char c :: int) in 48 \<le> n \<and> n \<le> 57)"
  unfolding isDigit_def Let_def of_char_int by simp

text \<open>A match consumes at least \<open>minLength\<close> characters.\<close>

lemma iterate_shorter:
  assumes "\<And>p p'. p' \<in> set (step p) \<Longrightarrow> length (snd p') \<le> length (snd p)"
  shows "p' \<in> set (iterate fuel step p) \<Longrightarrow> length (snd p') \<le> length (snd p)"
proof (induction fuel arbitrary: p)
  case Nil
  then show ?case by simp
next
  case (Cons x fuel)
  from Cons.prems consider "p' = p"
    | q where "length (snd q) < length (snd p)" "p' \<in> set (iterate fuel step q)"
    by auto
  then show ?case
  proof cases
    case 1
    then show ?thesis by simp
  next
    case 2
    from Cons.IH [OF 2(2)] 2(1) show ?thesis by simp
  qed
qed

lemma matchEnds_consumes:
  "p' \<in> set (matchEnds r p) \<Longrightarrow> length (snd p') + minLength r \<le> length (snd p)"
proof (induction r arbitrary: p p')
  case Eps
  then show ?case by simp
next
  case (Class cl)
  then show ?case by (cases p; cases "snd p") (auto split: if_splits)
next
  case WordBoundary
  then show ?case by (auto split: if_splits)
next
  case (Seq r1 r2)
  from Seq.prems obtain q where q: "q \<in> set (matchEnds r1 p)" and p': "p' \<in> set (matchEnds r2 q)"
    by auto
  from Seq.IH(1) [OF q] Seq.IH(2) [OF p'] show ?case by simp
next
  case (Alt r1 r2)
  from Alt.prems consider "p' \<in> set (matchEnds r1 p)" | "p' \<in> set (matchEnds r2 p)"
    by auto
  then show ?case
  proof cases
    case 1
    from Alt.IH(1) [OF 1] show ?thesis by simp
  next
    case 2
    from Alt.IH(2) [OF 2] show ?thesis by simp
  qed
next
  case (Star r)
  have "length (snd q') \<le> length (snd q)" if "q' \<in> set (matchEnds r q)" for q q'
    using Star.IH [OF that] by simp
  then have "length (snd p') \<le> length (snd p)"
    using Star.prems by (intro iterate_shorter [of "matchEnds r" p' "snd p" p]) simp_all
  then show ?case by simp
qed

text \<open>Every expression of the catalogue consumes at least one character, so the loop
  over the matches of an expression always moves on.\<close>

lemma catalogue_minLength:
  "list_all (\<lambda>r. 1 \<le> minLength r)
     (personPatterns @ datePatterns @ moneyPatterns @ orgPatterns @ legalPatterns)"
  by code_simp

lemma catalogue_matches_consume:
  assumes "r \<in> set (personPatterns @ datePatterns @ moneyPatterns @ orgPatterns @ legalPatterns)"
    and "matchEnds r (w, s) = p # ps"
  shows "length (snd p) < length s"
proof -
  have "1 \<le> minLength r"
    using catalogue_minLength assms(1) unfolding list_all_iff by (rule bspec)
  moreover have "p \<in> set (matchEnds r (w, s))"
    by (simp add: assms(2))
  then have "length (snd p) + minLength r \<le> length (snd (w, s))"
    by (rule matchEnds_consumes)
  ultimately show ?thesis by simp
qed

section \<open>Properties of the hash and of the embedding\<close>

lemma hashStep_polynomial: "hashStep a b = toInt32 (a * 31 + charCodeAt0 b)"
proof -
  have "((a * 32 + 2147483648) mod 4294967296 - 2147483648 - a + charCodeAt0 b + 2147483648)
          mod 4294967296
        = (a * 31 + charCodeAt0 b + 2147483648) mod 4294967296" (is "?l = ?r")
  proof -
    have "?l = ((a * 32 + 2147483648) mod 4294967296 + (charCodeAt0 b - a)) mod 4294967296"
      by (simp add: algebra_simps)
    also have "\<dots> = ((a * 32 + 2147483648) + (charCodeAt0 b - a)) mod 4294967296"
      by (rule mod_add_left_eq)
    also have "\<dots> = ?r"
      by (simp add: algebra_simps)
    finally show ?thesis .
  qed
  then show ?thesis
    by (simp add: hashStep_def Let_def toInt32_def)
qed

lemma toInt32_range: "- 2147483648 \<le> toInt32 x \<and> toInt32 x < 2147483648"
  unfolding toInt32_def by simp

lemma hash32_polynomial:
  "hash32 w = foldl (\<lambda>h c. toInt32 (h * 31 + charCodeAt0 c)) 0 w"
proof -
  have "hashStep = (\<lambda>h c. toInt32 (h * 31 + charCodeAt0 c))"
    by (intro ext) (rule hashStep_polynomial)
  then show ?thesis by (simp add: hash32_def)
qed

text \<open>
  Claim C9. The embedding of \<open>"Apple Apple Banana"\<close> is the zero vector of length 100 with
  2 in the bucket of \<open>apple\<close> and 1 in the bucket of \<open>banana\<close>, the two buckets (10 and 27)
  are distinct, and the hash behind a bucket is the polynomial hash \<open>h * 31 + charCode\<close>
  wrapped to a 32-bit two's-complement integer at every step.
\<close>

theorem embedding_apple_banana:
  "createSimpleEmbedding ''Apple Apple Banana''
     = (replicate 100 (Num 0))[bucket ''apple'' := Num 2, bucket ''banana'' := Num 1]
   \<and> bucket ''apple'' = 10 \<and> bucket ''banana'' = 27
   \<and> (\<forall>w. hash32 w = foldl (\<lambda>h c. toInt32 (h * 31 + charCodeAt0 c)) 0 w)
   \<and> (\<forall>w. bucket w = nat (\<bar>hash32 w\<bar> mod 100))"
proof -
  have "createSimpleEmbedding ''Apple Apple Banana''
          = (replicate 100 (Num 0))[bucket ''apple'' := Num 2, bucket ''banana'' := Num 1]
        \<and> bucket ''apple'' = 10 \<and> bucket ''banana'' = 27"
    by code_simp
  then show ?thesis
    using hash32_polynomial by (simp add: bucket_def)
qed

text \<open>
  Claim C10 (evaluation at the failing input). For the text \<open>"constructor"\<close> the frequency
  table finds the inherited function \<open>Object\<close> under that name, so the stored frequency is
  a string, and bucket 78 of the embedding holds a string instead of the count 1. For the
  text \<open>"__proto__"\<close> nothing is stored and the one word is not counted at all.
\<close>

theorem embedding_constructor:
  "createSimpleEmbedding ''constructor''
     = (replicate 100 (Num 0))[78 := Str ''0function Object() { [native code] }1'']
   \<and> matchWords (toLowerCase ''constructor'') [] = [''constructor'']
   \<and> createSimpleEmbedding ''__proto__'' = replicate 100 (Num 0)
   \<and> matchWords (toLowerCase ''__proto__'') [] = [''__proto__'']"
  by code_simp

section \<open>Properties of the provider chain\<close>

lemma generateBasicSummary_header:
  "\<exists>rest. generateBasicSummary txt = ''DOCUMENT ANALYSIS SUMMARY'' @ rest"
  by (simp add: generateBasicSummary_def Let_def)

text \<open>
  Claim C8. When both credentials are absent, summarization sends no request to any
  provider and returns the local summary, built from the text and from the entities that
  \<open>extractLegalEntities\<close> finds in it: the header \<open>DOCUMENT ANALYSIS SUMMARY\<close>, the number of
  pieces of the text between runs of white space and the number of sentences longer than 10
  characters, one line for each kind of entity that was found (persons, organizations,
  dates, amounts), listing at most five, and the first 500 characters of the first three
  sentences.
\<close>

theorem summary_without_credentials:
  assumes "absent (GEMINI_API_KEY e)" and "absent (OPENROUTER_API_KEY e)"
  shows "generateSummary e remote txt
           = (let found = (\<lambda>l. map entityText (filter (\<lambda>x. label x = l) (extractLegalEntities txt)));
                  listed = (\<lambda>title xs. if xs = [] then []
                                      else title @ '': '' @ joinWith '', '' (take 5 xs) @ ''\<newline>\<newline>'');
                  sentences = filter (\<lambda>s. 10 < length (trim s)) (splitSentences txt)
              in (''DOCUMENT ANALYSIS SUMMARY\<newline>\<newline>''
                  @ ''Document Length: '' @ showNat (length (splitWhitespace txt)) @ '' words, ''
                  @ showNat (length sentences) @ '' sentences\<newline>\<newline>''
                  @ listed ''Key Individuals'' (found ''PERSON'')
                  @ listed ''Organizations'' (found ''ORGANIZATION'')
                  @ listed ''Important Dates'' (found ''DATE'')
                  @ listed ''Financial Amounts'' (found ''MONEY'')
                  @ ''Content Preview: '' @ take 500 (joinWith ''. '' (take 3 sentences)) @ ''...'',
                  []))
         \<and> (\<exists>rest. fst (generateSummary e remote txt) = ''DOCUMENT ANALYSIS SUMMARY'' @ rest)"
proof -
  have "generateSummary e remote txt = (generateBasicSummary txt, [])"
    using assms(1) by (simp add: generateSummary_def)
  moreover have "\<exists>rest. generateBasicSummary txt = ''DOCUMENT ANALYSIS SUMMARY'' @ rest"
    by (rule generateBasicSummary_header)
  ultimately show ?thesis
    by (simp add: generateBasicSummary_def entitySection_def textsLabelled_def slice0_def
        substring0_def Let_def)
qed

theorem summary_without_credentials_witness:
  "absent (GEMINI_API_KEY noKeys) \<and> absent (OPENROUTER_API_KEY noKeys)
   \<and> generateSummary noKeys answering ''John Smith signed the agreement.''
       = (''DOCUMENT ANALYSIS SUMMARY\<newline>\<newline>Document Length: 5 words, 1 sentences\<newline>\<newline>Key Individuals: John Smith\<newline>\<newline>Content Preview: John Smith signed the agreement...'', [])"
proof -
  have g: "absent (GEMINI_API_KEY noKeys)" and r: "absent (OPENROUTER_API_KEY noKeys)"
    by (simp_all add: noKeys_def absent_def)
  have "generateSummary noKeys answering ''John Smith signed the agreement.''
       = (''DOCUMENT ANALYSIS SUMMARY\<newline>\<newline>Document Length: 5 words, 1 sentences\<newline>\<newline>Key Individuals: John Smith\<newline>\<newline>Content Preview: John Smith signed the agreement...'', [])"
    by (rule trans [OF summary_without_credentials [OF g r, THEN conjunct1]]) code_simp
  then show ?thesis
    using g r by simp
qed

text \<open>An example with every kind of entity: the entities that the extractor finds, with
  their indices, and the local summary.\<close>

lemma extractLegalEntities_example:
  "map (\<lambda>x. (entityText x, label x, start x, endIndex x))
     (extractLegalEntities ''On 1/2/2024 Mary Ann Lee paid 200 dollars to Acme Holdings.'')
     = [(''1/2/2024'', ''DATE'', 3, 11), (''Mary Ann Lee'', ''PERSON'', 12, 24),
        (''200 dollars'', ''MONEY'', 30, 41), (''Acme Holdings'', ''PERSON'', 45, 58),
        (''Acme Holdings'', ''ORGANIZATION'', 45, 58)]"
  by code_simp

lemma generateBasicSummary_example:
  "generateBasicSummary ''On 1/2/2024 Mary Ann Lee paid 200 dollars to Acme Holdings.''
     = ''DOCUMENT ANALYSIS SUMMARY\<newline>\<newline>Document Length: 11 words, 1 sentences\<newline>\<newline>Key Individuals: Mary Ann Lee, Acme Holdings\<newline>\<newline>Organizations: Acme Holdings\<newline>\<newline>Important Dates: 1/2/2024\<newline>\<newline>Financial Amounts: 200 dollars\<newline>\<newline>Content Preview: On 1/2/2024 Mary Ann Lee paid 200 dollars to Acme Holdings...''"
  by code_simp

text \<open>
  Claim C1, as stated, fails: with the Gemini credential absent and the OpenRouter
  credential present, and a remote side that would answer, neither summarization nor chat
  sends a request to OpenRouter (or to anyone).
\<close>

theorem openrouter_not_attempted:
  "absent (GEMINI_API_KEY onlyOpenRouterKey) \<and> \<not> absent (OPENROUTER_API_KEY onlyOpenRouterKey)
   \<and> snd (generateSummary onlyOpenRouterKey answering
            ''This Lease is made by John Smith.'') = []
   \<and> snd (generateChatResponse onlyOpenRouterKey answering ''Who signed?''
            ''This Lease is made by John Smith.'') = []"
  by (simp add: generateSummary_def generateChatResponse_def Let_def absent_def
      onlyOpenRouterKey_def)

text \<open>
  Claim C1, amended. The requests sent are: none when the Gemini credential is absent,
  whatever the OpenRouter credential; otherwise the Gemini request, followed by the
  OpenRouter request exactly when the Gemini attempt gave no text and the OpenRouter
  credential is present. With the Gemini credential absent, summarization returns the
  local summary and chat returns the fixed not-configured message around the context.
\<close>

theorem provider_chain_requests:
  "snd (generateSummary e remote txt)
     = (if absent (GEMINI_API_KEY e) then []
        else if extractedText (remote (GeminiSummary (substring0 txt 6000))) \<noteq> None
               \<or> absent (OPENROUTER_API_KEY e)
        then [GeminiSummary (substring0 txt 6000)]
        else [GeminiSummary (substring0 txt 6000), OpenRouterSummary (substring0 txt 6000)])
   \<and> snd (generateChatResponse e remote message documentText)
     = (let context = joinWith ''\<newline>\<newline>'' (findRelevantPassages message documentText 5)
        in if absent (GEMINI_API_KEY e) then []
           else if extractedText (remote (GeminiChat context message)) \<noteq> None
                  \<or> absent (OPENROUTER_API_KEY e)
           then [GeminiChat context message]
           else [GeminiChat context message, OpenRouterChat context message])
   \<and> (absent (GEMINI_API_KEY e) \<longrightarrow>
        fst (generateSummary e remote txt)
          = generateBasicSummary txt
        \<and> fst (generateChatResponse e remote message documentText)
          = notConfiguredResponse message
              (joinWith ''\<newline>\<newline>'' (findRelevantPassages message documentText 5)))"
  by (auto simp add: generateSummary_def generateChatResponse_def Let_def split: option.splits)

theorem provider_chain_requests_witness:
  "absent (GEMINI_API_KEY onlyOpenRouterKey)
   \<and> fst (generateSummary onlyOpenRouterKey answering ''This Lease is made by John Smith.'')
       = generateBasicSummary ''This Lease is made by John Smith.''
   \<and> fst (generateChatResponse onlyOpenRouterKey answering ''Who signed?''
            ''This Lease is made by John Smith.'')
       = notConfiguredResponse ''Who signed?''
           (joinWith ''\<newline>\<newline>''
              (findRelevantPassages ''Who signed?'' ''This Lease is made by John Smith.'' 5))
   \<and> snd (generateSummary bothKeys unreachable ''This Lease is made by John Smith.'')
       = [GeminiSummary ''This Lease is made by John Smith.'',
          OpenRouterSummary ''This Lease is made by John Smith.'']"
proof -
  have g: "absent (GEMINI_API_KEY onlyOpenRouterKey)"
    by (simp add: onlyOpenRouterKey_def absent_def)
  have b: "\<not> absent (GEMINI_API_KEY bothKeys)" "\<not> absent (OPENROUTER_API_KEY bothKeys)"
    by (simp_all add: bothKeys_def absent_def)
  have u: "extractedText (unreachable r) = None" for r
    by (simp add: unreachable_def extractedText_def)
  from provider_chain_requests [of onlyOpenRouterKey answering
      "''This Lease is made by John Smith.''" "''Who signed?''" "''This Lease is made by John Smith.''"]
    provider_chain_requests [of bothKeys unreachable
      "''This Lease is made by John Smith.''" "''Who signed?''" "''This Lease is made by John Smith.''"]
  show ?thesis using g b u by (simp add: substring0_def)
qed

text \<open>The sort keeps the elements, and the slice takes a prefix of them.\<close>

lemma length_insertSorted: "length (insertSorted cmp x ys) = Suc (length ys)"
  by (induction ys) auto

lemma set_insertSorted: "set (insertSorted cmp x ys) = insert x (set ys)"
  by (induction ys) auto

lemma length_jsSort: "length (jsSort cmp xs) = length xs"
  unfolding jsSort_def by (induction xs) (auto simp: length_insertSorted)

lemma set_jsSort: "set (jsSort cmp xs) = set xs"
  unfolding jsSort_def by (induction xs) (auto simp: set_insertSorted)

lemma jsSort_single: "jsSort cmp [x] = [x]"
  by (simp add: jsSort_def)

lemma slice0_all: "int (length xs) \<le> k \<Longrightarrow> slice0 xs k = xs"
  by (simp add: slice0_def)

lemma length_slice0: "0 \<le> k \<Longrightarrow> length (slice0 xs k) = min (nat k) (length xs)"
  by (simp add: slice0_def)

lemma set_slice0: "set (slice0 xs k) \<subseteq> set xs"
  by (auto simp: slice0_def dest: in_set_takeD)

lemma findRelevantPassages_fallback:
  "qualifyingSentences doc = [] \<Longrightarrow> findRelevantPassages q doc k = [substring0 doc 1000]"
  by (simp add: findRelevantPassages_def)

lemma findRelevantPassages_sorted:
  "qualifyingSentences doc \<noteq> [] \<Longrightarrow>
   findRelevantPassages q doc k
     = map sentence (slice0 (jsSort compareSimilarity
         (map (\<lambda>s. \<lparr> sentence = trim s,
                     similarity = cosineSimilarity (createSimpleEmbedding q) (createSimpleEmbedding s) \<rparr>)
              (qualifyingSentences doc))) k)"
  by (simp add: findRelevantPassages_def Let_def)

lemma splitFrom_no_separator:
  "\<forall>c\<in>set s. \<not> sep c \<Longrightarrow> splitFrom sep s cur b = [rev cur @ s]"
  by (induction s arbitrary: cur b) auto

lemma dropWhile_replicate: "\<not> P c \<Longrightarrow> dropWhile P (replicate n c) = replicate n c"
  by (cases n) simp_all

lemma trim_replicate: "\<not> isSpace c \<Longrightarrow> trim (replicate n c) = replicate n c"
  by (simp add: trim_def dropWhile_replicate)

lemma qualifying_replicate:
  assumes "\<not> isTerminator c" "\<not> isSpace c" "30 < n"
  shows "qualifyingSentences (replicate n c) = [replicate n c]"
proof -
  have "splitSentences (replicate n c) = [replicate n c]"
    unfolding splitSentences_def using assms(1) by (subst splitFrom_no_separator) auto
  then show ?thesis
    using assms by (simp add: qualifyingSentences_def trim_replicate)
qed

lemma findRelevantPassages_replicate:
  assumes "\<not> isTerminator c" "\<not> isSpace c" "30 < n" "0 < k"
  shows "findRelevantPassages q (replicate n c) k = [replicate n c]"
  using assms
  by (simp add: findRelevantPassages_sorted qualifying_replicate jsSort_single slice0_def
      trim_replicate)

lemma context_longParagraph: "findRelevantPassages q longParagraph 5 = [longParagraph]"
  unfolding longParagraph_def
  by (rule findRelevantPassages_replicate) (simp_all add: isTerminator_def isSpace_def)

text \<open>
  Claim C2, as stated, fails on the chat path: for a document of 7000 characters without a
  sentence terminator the whole document is the one selected passage, and the requests to
  both providers carry all 7000 characters of it.
\<close>

theorem chat_context_exceeds_budget:
  "snd (generateChatResponse bothKeys unreachable ''What is due?'' longParagraph)
     = [GeminiChat longParagraph ''What is due?'', OpenRouterChat longParagraph ''What is due?'']
   \<and> documentContent (GeminiChat longParagraph ''What is due?'') = longParagraph
   \<and> documentContent (OpenRouterChat longParagraph ''What is due?'') = longParagraph
   \<and> length longParagraph = 7000"
proof -
  have "length longParagraph = 7000"
    unfolding longParagraph_def by (rule length_replicate)
  then show ?thesis
    by (simp add: generateChatResponse_def context_longParagraph Let_def absent_def bothKeys_def
        unreachable_def extractedText_def)
qed

text \<open>
  Claim C2, amended. Every request of the summarization path carries the first 6000
  characters of the text, so at most 6000 characters of it. Every request of the chat path
  carries the passages selected for the message (at most five), joined by blank lines, with
  no bound on their length.
\<close>

theorem prompt_document_content:
  "list_all (\<lambda>r. documentContent r = substring0 txt 6000 \<and> length (documentContent r) \<le> 6000)
     (snd (generateSummary e remote txt))
   \<and> list_all (\<lambda>r. documentContent r
                     = joinWith ''\<newline>\<newline>'' (findRelevantPassages message documentText 5))
     (snd (generateChatResponse e remote message documentText))
   \<and> length (findRelevantPassages message documentText 5) \<le> 5"
proof -
  have "length (findRelevantPassages message documentText 5) \<le> 5"
    by (cases "qualifyingSentences documentText = []")
      (simp_all add: findRelevantPassages_fallback findRelevantPassages_sorted length_slice0)
  then show ?thesis
    by (auto simp add: generateSummary_def generateChatResponse_def Let_def substring0_def
        split: option.splits)
qed

section \<open>Properties of the passage selector\<close>

lemma qualifyingSentences_threshold:
  "qualifyingSentences doc = filter (\<lambda>s. 31 \<le> length (trim s)) (splitSentences doc)"
proof -
  have "(\<lambda>s. 30 < length (trim s)) = (\<lambda>s. 31 \<le> length (trim s))" by auto
  then show ?thesis by (simp add: qualifyingSentences_def)
qed

text \<open>
  Claim C5, as stated, fails: a fragment whose trimmed length is exactly 30 is discarded.
  The document below has one such fragment; nothing qualifies, and the selector returns
  the raw text instead.
\<close>

theorem fragment_of_length_30_discarded:
  "length (trim ''Payment is due on the 15th day'') = 30
   \<and> ''Payment is due on the 15th day'' \<in> set (splitSentences ''Payment is due on the 15th day.'')
   \<and> ''Payment is due on the 15th day'' \<notin> set (qualifyingSentences ''Payment is due on the 15th day.'')
   \<and> findRelevantPassages ''When is payment due?'' ''Payment is due on the 15th day.'' 5
       = [''Payment is due on the 15th day.'']"
proof -
  have q: "qualifyingSentences ''Payment is due on the 15th day.'' = []"
    by code_simp
  have "length (trim ''Payment is due on the 15th day'') = 30
   \<and> ''Payment is due on the 15th day'' \<in> set (splitSentences ''Payment is due on the 15th day.'')"
    by code_simp
  then show ?thesis using q by (simp add: findRelevantPassages_fallback substring0_def)
qed

text \<open>
  Claim C5, amended. The selector keeps exactly the fragments of the sentence split whose
  trimmed length is greater than 30 (at least 31), in document order; and when some
  fragment qualifies and \<open>topK\<close> is not smaller than their number, the passages returned are
  exactly the trimmed qualifying fragments.
\<close>

theorem passage_length_threshold:
  "qualifyingSentences doc = filter (\<lambda>s. 31 \<le> length (trim s)) (splitSentences doc)
   \<and> (qualifyingSentences doc \<noteq> [] \<and> int (length (qualifyingSentences doc)) \<le> k \<longrightarrow>
        set (findRelevantPassages q doc k) = trim ` set (qualifyingSentences doc)
        \<and> length (findRelevantPassages q doc k) = length (qualifyingSentences doc))"
proof (intro conjI impI)
  show "qualifyingSentences doc = filter (\<lambda>s. 31 \<le> length (trim s)) (splitSentences doc)"
    by (rule qualifyingSentences_threshold)
next
  assume h: "qualifyingSentences doc \<noteq> [] \<and> int (length (qualifyingSentences doc)) \<le> k"
  let ?sims = "map (\<lambda>s. \<lparr> sentence = trim s,
                     similarity = cosineSimilarity (createSimpleEmbedding q) (createSimpleEmbedding s) \<rparr>)
              (qualifyingSentences doc)"
  have all: "slice0 (jsSort compareSimilarity ?sims) k = jsSort compareSimilarity ?sims"
    using h by (intro slice0_all) (simp add: length_jsSort)
  have eq: "findRelevantPassages q doc k = map sentence (jsSort compareSimilarity ?sims)"
    using h all by (simp add: findRelevantPassages_sorted)
  show "set (findRelevantPassages q doc k) = trim ` set (qualifyingSentences doc)"
    unfolding eq by (simp add: set_jsSort image_image)
  show "length (findRelevantPassages q doc k) = length (qualifyingSentences doc)"
    unfolding eq by (simp add: length_jsSort)
qed

lemma qualifying_scenarioDocument:
  "qualifyingSentences scenarioDocument
     = [''John Smith signed the agreement'', '' Payment of $500 is due January 1, 2024'',
        '' The warranty expires after one year'']"
  by code_simp

lemma trim_scenario_sentences:
  "trim ''John Smith signed the agreement'' = ''John Smith signed the agreement''"
  "trim '' Payment of $500 is due January 1, 2024'' = ''Payment of $500 is due January 1, 2024''"
  "trim '' The warranty expires after one year'' = ''The warranty expires after one year''"
  by code_simp+

theorem passage_length_threshold_witness:
  "qualifyingSentences scenarioDocument \<noteq> []
   \<and> int (length (qualifyingSentences scenarioDocument)) \<le> 5
   \<and> set (findRelevantPassages scenarioQuery scenarioDocument 5)
       = {''John Smith signed the agreement'', ''Payment of $500 is due January 1, 2024'',
          ''The warranty expires after one year''}
   \<and> length (findRelevantPassages scenarioQuery scenarioDocument 5) = 3"
proof -
  have n: "qualifyingSentences scenarioDocument \<noteq> []
           \<and> int (length (qualifyingSentences scenarioDocument)) \<le> 5"
    by (simp add: qualifying_scenarioDocument)
  with passage_length_threshold [of scenarioDocument 5 scenarioQuery]
  have "set (findRelevantPassages scenarioQuery scenarioDocument 5)
          = trim ` set (qualifyingSentences scenarioDocument)
        \<and> length (findRelevantPassages scenarioQuery scenarioDocument 5)
          = length (qualifyingSentences scenarioDocument)"
    by blast
  then show ?thesis
    using n by (simp add: qualifying_scenarioDocument trim_scenario_sentences)
qed

lemma findRelevantPassages_zero:
  "qualifyingSentences doc \<noteq> [] \<Longrightarrow> findRelevantPassages q doc 0 = []"
  by (simp add: findRelevantPassages_sorted slice0_def)

text \<open>
  The selector returns at most \<open>k\<close> passages, so for \<open>k = 0\<close> it returns none when fragments
  qualify, as on the Scenario B document. Its only caller leaves \<open>k\<close> at the default 5.
\<close>

lemma selector_empty_for_topK_zero:
  "scenarioDocument \<noteq> [] \<and> findRelevantPassages scenarioQuery scenarioDocument 0 = []"
proof -
  have "qualifyingSentences scenarioDocument \<noteq> []"
    by (simp add: qualifying_scenarioDocument)
  then show ?thesis
    by (simp add: findRelevantPassages_zero) (simp add: scenarioDocument_def)
qed

text \<open>
  Claim C6. For every non-empty document, every query and every number \<open>k \<ge> 1\<close> of passages
  asked for (the selector is only called with the default 5), the selector returns at
  least one string; when no fragment qualifies it returns exactly one string, the first
  1000 characters of the document.
\<close>

theorem selector_nonempty:
  assumes "doc \<noteq> []" and "1 \<le> k"
  shows "1 \<le> length (findRelevantPassages q doc k)
         \<and> (qualifyingSentences doc = [] \<longrightarrow> findRelevantPassages q doc k = [substring0 doc 1000])"
proof (cases "qualifyingSentences doc = []")
  case True
  then show ?thesis by (simp add: findRelevantPassages_fallback)
next
  case False
  then have "1 \<le> length (findRelevantPassages q doc k)"
    using assms(2) by (simp add: findRelevantPassages_sorted length_slice0 length_jsSort Suc_le_eq)
  with False show ?thesis by simp
qed

theorem selector_nonempty_witness:
  "''Hi. There.'' \<noteq> [] \<and> (1::int) \<le> 5 \<and> qualifyingSentences ''Hi. There.'' = []
   \<and> 1 \<le> length (findRelevantPassages ''Hello?'' ''Hi. There.'' 5)
   \<and> findRelevantPassages ''Hello?'' ''Hi. There.'' 5 = [''Hi. There.'']"
proof -
  have q: "qualifyingSentences ''Hi. There.'' = []"
    by code_simp
  have "''Hi. There.'' \<noteq> []" and "(1::int) \<le> 5"
    by simp_all
  from selector_nonempty [OF this, of "''Hello?''"] q
  show ?thesis by (simp add: substring0_def)
qed

section \<open>Properties of the rounding\<close>
lemma pow2_powi: "pow2 e = 2 powi e"
  by (simp add: pow2_def power_int_def inverse_eq_divide power_one_over)

lemma pow2_pos [simp]: "0 < pow2 e"
  by (simp add: pow2_powi)

lemma pow2_nonzero [simp]: "pow2 e \<noteq> 0"
  by (simp add: pow2_powi)

lemma pow2_add: "pow2 (a + b) = pow2 a * pow2 b"
  by (simp add: pow2_powi power_int_add)

lemma pow2_nat: "0 \<le> e \<Longrightarrow> pow2 e = 2 ^ nat e"
  by (simp add: pow2_def)

lemma pow2_0 [simp]: "pow2 0 = 1"
  by (simp add: pow2_def)

lemma pow2_mono: "a \<le> b \<Longrightarrow> pow2 a \<le> pow2 b"
  by (simp add: pow2_powi power_int_increasing)

lemma pow2_less_cancel: "pow2 a < pow2 b \<Longrightarrow> a < b"
  using pow2_mono [of b a] by (cases "a < b") auto

lemma pow2_neg: "pow2 (- e) = 1 / pow2 e"
  by (simp add: pow2_powi power_int_minus inverse_eq_divide)

lemma ilog2_bounds:
  assumes "0 < x"
  shows "pow2 (ilog2 x) \<le> x \<and> x < pow2 (ilog2 x + 1)"
proof (cases "1 \<le> x")
  case True
  define n where "n = \<lfloor>x\<rfloor>"
  have n: "0 < n" "of_int n \<le> x" "x < of_int n + 1"
    using True floor_correct [of x] by (simp_all add: n_def)
  have b: "2 ^ nat (bitlen n - 1) \<le> n" "n < 2 ^ nat (bitlen n)"
    using bitlen_bounds [OF n(1)] by simp_all
  have b1: "1 \<le> bitlen n"
    using n(1) by (simp add: bitlen_alt_def)
  have e: "ilog2 x = bitlen n - 1"
    using True by (simp add: ilog2_def n_def)
  have "(of_int (2 ^ nat (bitlen n - 1)) :: real) \<le> of_int n"
    using b(1) by (simp only: of_int_le_iff)
  then have "(2 :: real) ^ nat (bitlen n - 1) \<le> of_int n"
    by simp
  then have "(2 :: real) ^ nat (bitlen n - 1) \<le> x"
    using n(2) by linarith
  then have lo: "pow2 (bitlen n - 1) \<le> x"
    using b1 by (simp add: pow2_nat)
  have "n + 1 \<le> 2 ^ nat (bitlen n)"
    using b(2) by simp
  then have "(of_int (n + 1) :: real) \<le> of_int (2 ^ nat (bitlen n))"
    by (simp only: of_int_le_iff)
  then have "of_int n + 1 \<le> (2 :: real) ^ nat (bitlen n)"
    by simp
  then have "x < (2 :: real) ^ nat (bitlen n)"
    using n(3) by linarith
  then have hi: "x < pow2 (bitlen n)"
    using b1 by (simp add: pow2_nat)
  show ?thesis
    using lo hi by (simp add: e)
next
  case False
  then have x1: "x < 1" by simp
  define n where "n = \<lfloor>1 / x\<rfloor>"
  have inv: "1 < 1 / x"
    using assms x1 by simp
  have n: "0 < n" "of_int n \<le> 1 / x" "1 / x < of_int n + 1"
    using inv floor_correct [of "1 / x"] by (simp_all add: n_def)
  define b where "b = bitlen n"
  have bb: "2 ^ nat (b - 1) \<le> n" "n < 2 ^ nat b"
    using bitlen_bounds [OF n(1)] by (simp_all add: b_def)
  have b1: "1 \<le> b"
    using n(1) by (simp add: bitlen_alt_def b_def)
  have "(of_int (2 ^ nat (b - 1)) :: real) \<le> of_int n"
    using bb(1) by (simp only: of_int_le_iff)
  then have "(2 :: real) ^ nat (b - 1) \<le> of_int n"
    by simp
  then have "(2 :: real) ^ nat (b - 1) \<le> 1 / x"
    using n(2) by linarith
  then have "pow2 (b - 1) \<le> 1 / x"
    using b1 by (simp add: pow2_nat)
  then have up: "x * pow2 (b - 1) \<le> 1"
    using assms by (simp add: field_simps)
  have "n + 1 \<le> 2 ^ nat b"
    using bb(2) by simp
  then have "(of_int (n + 1) :: real) \<le> of_int (2 ^ nat b)"
    by (simp only: of_int_le_iff)
  then have "of_int n + 1 \<le> (2 :: real) ^ nat b"
    by simp
  then have "1 / x < (2 :: real) ^ nat b"
    using n(3) by linarith
  then have "1 / x < pow2 b"
    using b1 by (simp add: pow2_nat)
  then have lo: "1 < x * pow2 b"
    using assms by (simp add: field_simps)
  have e: "ilog2 x = (if x * pow2 (b - 1) = 1 then 1 - b else - b)"
    using False by (simp add: ilog2_def n_def b_def Let_def)
  have p1: "pow2 (1 - b) = 1 / pow2 (b - 1)"
    using pow2_neg [of "b - 1"] by simp
  have p2: "pow2 (- b) = 1 / pow2 b"
    by (rule pow2_neg)
  have p3: "pow2 (2 - b) = 2 / pow2 (b - 1)"
    using pow2_add [of 1 "1 - b"] p1 by (simp add: pow2_def)
  show ?thesis
  proof (cases "x * pow2 (b - 1) = 1")
    case True
    then have "x = pow2 (1 - b)"
      by (simp add: p1 eq_divide_eq)
    moreover have "pow2 (1 - b) < pow2 (2 - b)"
      unfolding p1 p3 by (intro divide_strict_right_mono) simp_all
    ultimately show ?thesis
      using True e by (simp add: add.commute)
  next
    case ne: False
    with up have "x * pow2 (b - 1) < 1" by simp
    then have "x < pow2 (1 - b)"
      by (simp add: p1 less_divide_eq)
    moreover have "pow2 (- b) \<le> x"
      using lo by (simp add: p2 divide_le_eq)
    ultimately show ?thesis
      using ne e by (simp add: add.commute)
  qed
qed

lemma pow2_numeral [simp]: "pow2 (numeral k) = 2 ^ numeral k"
  by (simp add: pow2_def)

lemma pow2_nonneg [simp]: "0 \<le> pow2 e"
  by (simp add: pow2_powi)

lemma pow2_abs [simp]: "\<bar>pow2 e\<bar> = pow2 e"
  by (simp add: abs_of_pos)

lemma roundHalfEven_near: "\<bar>of_int (roundHalfEven y) - y\<bar> \<le> 1 / 2"
  unfolding roundHalfEven_def Let_def using floor_correct [of y] by auto

lemma roundHalfEven_ge_floor: "\<lfloor>y\<rfloor> \<le> roundHalfEven y"
  unfolding roundHalfEven_def Let_def by auto

lemma roundHalfEven_of_int [simp]: "roundHalfEven (of_int k) = k"
  unfolding roundHalfEven_def Let_def by simp

lemma roundHalfEven_ge: "of_int k \<le> y \<Longrightarrow> k \<le> roundHalfEven y"
  using roundHalfEven_ge_floor [of y] le_floor_iff [of k y] by linarith

lemma round53_0 [simp]: "round53 0 = 0"
  by (simp add: round53_def)

lemma round53_scaled:
  assumes "x \<noteq> 0"
  obtains e m where "round53 x = sgn x * of_int m * pow2 e"
    and "pow2 (e + 52) \<le> \<bar>x\<bar>" and "\<bar>x\<bar> < pow2 (e + 53)"
    and "\<bar>of_int m - \<bar>x\<bar> / pow2 e\<bar> \<le> 1 / 2" and "2 ^ 52 \<le> m"
proof -
  define e where "e = ilog2 \<bar>x\<bar> - 52"
  define m where "m = roundHalfEven (\<bar>x\<bar> / pow2 e)"
  have pos: "0 < \<bar>x\<bar>" using assms by simp
  have e52: "e + 52 = ilog2 \<bar>x\<bar>" and e53: "e + 53 = ilog2 \<bar>x\<bar> + 1"
    by (simp_all add: e_def)
  have lo: "pow2 (e + 52) \<le> \<bar>x\<bar>" and hi: "\<bar>x\<bar> < pow2 (e + 53)"
    unfolding e52 e53 using ilog2_bounds [OF pos] by blast+
  have "pow2 (e + 52) = pow2 e * 2 ^ 52"
    by (simp add: pow2_add)
  then have "2 ^ 52 \<le> \<bar>x\<bar> / pow2 e"
    using lo by (simp add: le_divide_eq mult.commute)
  then have "(of_int (2 ^ 52) :: real) \<le> \<bar>x\<bar> / pow2 e"
    by simp
  then have m52: "2 ^ 52 \<le> m"
    unfolding m_def by (rule roundHalfEven_ge)
  have r: "round53 x = sgn x * of_int m * pow2 e"
    using assms by (simp add: round53_def Let_def e_def m_def)
  show ?thesis
    using that [OF r lo hi _ m52] roundHalfEven_near [of "\<bar>x\<bar> / pow2 e"] by (simp add: m_def)
qed

lemma round53_pos: "0 < x \<Longrightarrow> 0 < round53 x"
proof -
  assume x: "0 < x"
  then have "x \<noteq> 0" by simp
  then obtain e m where r: "round53 x = sgn x * of_int m * pow2 e" and m: "2 ^ 52 \<le> m"
    by (rule round53_scaled)
  have "0 < m" using m by (smt (verit) zero_less_power)
  then show ?thesis
    using x r by simp
qed

lemma round53_minus: "round53 (- x) = - round53 x"
  by (simp add: round53_def Let_def)

lemma round53_neg: "x < 0 \<Longrightarrow> round53 x < 0"
  using round53_pos [of "- x"] by (simp add: round53_minus)

lemma round53_eq_0_iff [simp]: "round53 x = 0 \<longleftrightarrow> x = 0"
  using round53_pos [of x] round53_neg [of x] by (cases "x = 0") (auto simp: neq_iff)

lemma round53_pos_iff [simp]: "0 < round53 x \<longleftrightarrow> 0 < x"
  using round53_pos [of x] round53_neg [of x] by (cases "x = 0") (auto simp: neq_iff not_less)

lemma round53_nonneg: "0 \<le> x \<Longrightarrow> 0 \<le> round53 x"
proof (cases "x = 0")
  case True
  then show ?thesis by simp
next
  case False
  assume "0 \<le> x"
  with False have "0 < x" by simp
  then have "0 < round53 x" by (rule round53_pos)
  then show ?thesis by (rule less_imp_le)
qed

lemma round53_error: "\<bar>round53 x - x\<bar> \<le> \<bar>x\<bar> / 2 ^ 53"
proof (cases "x = 0")
  case True
  then show ?thesis by simp
next
  case False
  then obtain e m where r: "round53 x = sgn x * of_int m * pow2 e"
    and lo: "pow2 (e + 52) \<le> \<bar>x\<bar>"
    and near: "\<bar>of_int m - \<bar>x\<bar> / pow2 e\<bar> \<le> 1 / 2"
    by (rule round53_scaled)
  have "round53 x - x = sgn x * (of_int m - \<bar>x\<bar> / pow2 e) * pow2 e"
    unfolding r by (simp add: algebra_simps abs_mult_sgn)
  then have "\<bar>round53 x - x\<bar> = \<bar>of_int m - \<bar>x\<bar> / pow2 e\<bar> * pow2 e"
    using False by (simp add: abs_mult abs_sgn_eq)
  also have "\<dots> \<le> 1 / 2 * pow2 e"
    using near by (intro mult_right_mono) simp_all
  also have "\<dots> = pow2 (e + 52) / 2 ^ 53"
    by (simp add: pow2_add)
  also have "\<dots> \<le> \<bar>x\<bar> / 2 ^ 53"
    using lo by (intro divide_right_mono) simp_all
  finally show ?thesis .
qed

lemma ilog2_less: "0 < x \<Longrightarrow> x < pow2 k \<Longrightarrow> ilog2 x < k"
  using ilog2_bounds [of x] pow2_less_cancel [of "ilog2 x" k] by linarith

lemma round53_of_int:
  assumes "\<bar>n\<bar> < 2 ^ 53"
  shows "round53 (of_int n) = of_int n"
proof (cases "n = 0")
  case True
  then show ?thesis by simp
next
  case False
  define e where "e = ilog2 \<bar>of_int n\<bar> - 52"
  have "\<bar>real_of_int n\<bar> < of_int (2 ^ 53)"
    using assms by (simp only: of_int_abs [symmetric] of_int_less_iff)
  then have "\<bar>real_of_int n\<bar> < pow2 53"
    by simp
  moreover have "0 < \<bar>real_of_int n\<bar>"
    using False by simp
  ultimately have "ilog2 \<bar>of_int n\<bar> < 53"
    by (rule ilog2_less [rotated])
  then have e: "e \<le> 0" by (simp add: e_def)
  then have "1 / pow2 e = 2 ^ nat (- e)"
    using pow2_neg [of e] pow2_nat [of "- e"] by simp
  then have inv: "1 / pow2 e = 2 ^ nat (- e)" .
  have "\<bar>real_of_int n\<bar> / pow2 e = \<bar>real_of_int n\<bar> * (1 / pow2 e)"
    by simp
  also have "\<dots> = \<bar>real_of_int n\<bar> * 2 ^ nat (- e)"
    by (simp only: inv)
  also have "\<dots> = of_int (\<bar>n\<bar> * 2 ^ nat (- e))"
    by simp
  finally have "\<bar>real_of_int n\<bar> / pow2 e = of_int (\<bar>n\<bar> * 2 ^ nat (- e))" .
  then have "roundHalfEven (\<bar>real_of_int n\<bar> / pow2 e) = \<bar>n\<bar> * 2 ^ nat (- e)"
    by (simp only: roundHalfEven_of_int)
  then have "round53 (of_int n) = sgn (of_int n) * of_int (\<bar>n\<bar> * 2 ^ nat (- e)) * pow2 e"
    using False by (simp add: round53_def Let_def e_def)
  also have "\<dots> = sgn (of_int n) * \<bar>of_int n\<bar> * (2 ^ nat (- e) * pow2 e)"
    by simp
  also have "2 ^ nat (- e) * pow2 e = 1"
    using pow2_add [of "- e" e] pow2_nat [of "- e"] e by simp
  finally show ?thesis
    by (simp add: sgn_mult_abs)
qed

lemma round53_of_nat: "n < 2 ^ 53 \<Longrightarrow> round53 (of_nat n) = of_nat n"
  using round53_of_int [of "int n"] by simp

lemma isqrt_correct:
  "0 \<le> n \<Longrightarrow> 0 \<le> isqrt n \<and> isqrt n * isqrt n \<le> n \<and> n < (isqrt n + 1) * (isqrt n + 1)"
proof (induction n rule: isqrt.induct)
  case (1 n)
  show ?case
  proof (cases "n < 1")
    case True
    with "1.prems" have "n = 0" by simp
    then show ?thesis by (simp add: isqrt.simps)
  next
    case False
    define q where "q = isqrt (n div 4)"
    have "0 \<le> n div 4" using "1.prems" by simp
    with "1.IH" [OF False] have q: "0 \<le> q" "q * q \<le> n div 4" "n div 4 < (q + 1) * (q + 1)"
      by (simp_all add: q_def)
    have lo: "4 * (q * q) \<le> n"
      using q(2) by linarith
    have "n div 4 + 1 \<le> (q + 1) * (q + 1)"
      using q(3) by simp
    then have hi: "n < 4 * ((q + 1) * (q + 1))"
      by linarith
    have r: "isqrt n = (if (2 * q + 1) * (2 * q + 1) \<le> n then 2 * q + 1 else 2 * q)"
      using False by (subst isqrt.simps) (simp add: q_def Let_def)
    show ?thesis
    proof (cases "(2 * q + 1) * (2 * q + 1) \<le> n")
      case True
      have "(2 * q + 1 + 1) * (2 * q + 1 + 1) = 4 * ((q + 1) * (q + 1))"
        by (simp add: algebra_simps)
      with True hi q(1) show ?thesis
        by (simp add: r)
    next
      case False
      have "2 * q * (2 * q) = 4 * (q * q)"
        by simp
      with False lo q(1) show ?thesis
        by (simp add: r)
    qed
  qed
qed

lemma pow2_double: "pow2 (2 * s) = pow2 s * pow2 s"
  using pow2_add [of s s] by simp

lemma sqrt53_0 [simp]: "sqrt53 0 = 0"
  by (simp add: sqrt53_def)

lemma ilog2_unique:
  assumes "pow2 k \<le> z" and "z < pow2 (k + 1)"
  shows "ilog2 z = k"
proof -
  have z: "0 < z"
    using assms(1) pow2_pos [of k] by linarith
  have "ilog2 z < k + 1"
    using z assms(2) by (rule ilog2_less)
  moreover have "pow2 k < pow2 (ilog2 z + 1)"
    using ilog2_bounds [OF z] assms(1) by linarith
  then have "k < ilog2 z + 1"
    by (rule pow2_less_cancel)
  ultimately show ?thesis by linarith
qed

lemma roundHalfEven_sqrt:
  assumes "0 \<le> m" and "of_int (m * m) \<le> y" and "y < of_int ((m + 1) * (m + 1))"
  shows "roundHalfEven (sqrt y)
           = (if y < of_int (m * m + m) + 1 / 4 then m
              else if of_int (m * m + m) + 1 / 4 < y then m + 1
              else if even m then m else m + 1)"
proof -
  define c :: real where "c = of_int (m * m + m) + 1 / 4"
  have "sqrt ((of_int m) * (of_int m)) \<le> sqrt y"
    using assms(2) by (intro real_sqrt_le_mono) simp
  then have m_lo: "of_int m \<le> sqrt y"
    using assms(1) by simp
  have "sqrt y < sqrt ((of_int (m + 1)) * (of_int (m + 1)))"
    using assms(3) by (intro real_sqrt_less_mono) simp
  then have m_hi: "sqrt y < of_int m + 1"
    using assms(1) by simp
  have fl: "\<lfloor>sqrt y\<rfloor> = m"
    using m_lo m_hi by (simp add: floor_eq_iff)
  have csq: "c = (of_int m + 1 / 2) * (of_int m + 1 / 2)"
    by (simp add: c_def algebra_simps)
  have chalf: "sqrt c = of_int m + 1 / 2"
    unfolding csq using assms(1) by simp
  have lt: "sqrt y - of_int m < 1 / 2 \<longleftrightarrow> y < c"
  proof -
    have "sqrt y - of_int m < 1 / 2 \<longleftrightarrow> sqrt y < sqrt c"
      unfolding chalf by auto
    then show ?thesis by (simp only: real_sqrt_less_iff)
  qed
  have gt: "1 / 2 < sqrt y - of_int m \<longleftrightarrow> c < y"
  proof -
    have "1 / 2 < sqrt y - of_int m \<longleftrightarrow> sqrt c < sqrt y"
      unfolding chalf by auto
    then show ?thesis by (simp only: real_sqrt_less_iff)
  qed
  show ?thesis
    unfolding roundHalfEven_def Let_def fl lt gt c_def [symmetric] by simp
qed

text \<open>\<open>sqrt53\<close> is the real square root rounded to the nearest double, ties to even.\<close>

lemma sqrt53_correctly_rounded:
  assumes "0 \<le> x"
  shows "sqrt53 x = round53 (sqrt x)"
proof (cases "x = 0")
  case True
  then show ?thesis by simp
next
  case False
  with assms have x: "0 < x" by simp
  define e where "e = ilog2 x"
  define q where "q = e div 2"
  define s where "s = q - 52"
  define y where "y = x / pow2 (2 * s)"
  define m where "m = isqrt \<lfloor>y\<rfloor>"
  have xb: "pow2 e \<le> x" "x < pow2 (e + 1)"
    using ilog2_bounds [OF x] by (simp_all add: e_def)
  have "2 * q \<le> e" "e + 1 \<le> 2 * (q + 1)"
    unfolding q_def by presburger+
  then have "pow2 (2 * q) \<le> pow2 e" "pow2 (e + 1) \<le> pow2 (2 * (q + 1))"
    by (simp_all add: pow2_mono)
  then have "pow2 q * pow2 q \<le> pow2 e" "pow2 (e + 1) \<le> pow2 (q + 1) * pow2 (q + 1)"
    by (simp_all only: pow2_double)
  with xb have xq: "pow2 q * pow2 q \<le> x" "x < pow2 (q + 1) * pow2 (q + 1)"
    by linarith+
  have "sqrt (pow2 q * pow2 q) \<le> sqrt x"
    using xq(1) by (rule real_sqrt_le_mono)
  then have lo: "pow2 q \<le> sqrt x" by simp
  have "sqrt x < sqrt (pow2 (q + 1) * pow2 (q + 1))"
    using xq(2) by (rule real_sqrt_less_mono)
  then have hi: "sqrt x < pow2 (q + 1)" by simp
  have lg: "ilog2 (sqrt x) = q"
    using lo hi by (rule ilog2_unique)
  have sx: "0 < sqrt x" using x by simp
  have ysq: "sqrt y = sqrt x / pow2 s"
    by (simp add: y_def pow2_double real_sqrt_divide real_sqrt_mult)
  have r53: "round53 (sqrt x) = of_int (roundHalfEven (sqrt y)) * pow2 s"
    using sx by (simp add: round53_def Let_def lg s_def [symmetric] ysq)
  have ypos: "0 \<le> y"
    using x by (simp add: y_def)
  then have fl: "0 \<le> \<lfloor>y\<rfloor>" by simp
  from isqrt_correct [OF fl]
  have m: "0 \<le> m" "m * m \<le> \<lfloor>y\<rfloor>" "\<lfloor>y\<rfloor> < (m + 1) * (m + 1)"
    by (simp_all add: m_def)
  have m2: "of_int (m * m) \<le> y"
    using m(2) by (simp add: le_floor_iff)
  have "\<lfloor>y\<rfloor> + 1 \<le> (m + 1) * (m + 1)"
    using m(3) by simp
  then have m3: "y < of_int ((m + 1) * (m + 1))"
    by (metis less_le_trans floor_less_iff zless_add1_eq)
  have "sqrt53 x = of_int (if y < of_int (m * m + m) + 1 / 4 then m
              else if of_int (m * m + m) + 1 / 4 < y then m + 1
              else if even m then m else m + 1) * pow2 s"
    using x by (simp add: sqrt53_def Let_def e_def q_def s_def y_def m_def)
  also have "\<dots> = of_int (roundHalfEven (sqrt y)) * pow2 s"
    by (simp only: roundHalfEven_sqrt [OF m(1) m2 m3])
  finally show ?thesis
    by (simp add: r53)
qed

lemma sqrt53_scaled:
  assumes "0 < x"
  obtains s r where "sqrt53 x = of_int r * pow2 s"
    and "pow2 (s + 52) \<le> sqrt x"
    and "\<bar>of_int r - sqrt x / pow2 s\<bar> \<le> 1 / 2" and "2 ^ 52 \<le> r"
proof -
  have sx: "0 < sqrt x" using assms by simp
  then have "sqrt x \<noteq> 0" by simp
  then obtain e m where "round53 (sqrt x) = sgn (sqrt x) * of_int m * pow2 e"
    and "pow2 (e + 52) \<le> \<bar>sqrt x\<bar>"
    and "\<bar>of_int m - \<bar>sqrt x\<bar> / pow2 e\<bar> \<le> 1 / 2" and "2 ^ 52 \<le> m"
    by (rule round53_scaled)
  then show ?thesis
    using sx assms by (intro that [of m e]) (simp_all add: sqrt53_correctly_rounded)
qed

lemma sqrt53_pos: "0 < x \<Longrightarrow> 0 < sqrt53 x"
proof -
  assume "0 < x"
  then obtain s r where v: "sqrt53 x = of_int r * pow2 s" and r: "2 ^ 52 \<le> r"
    by (rule sqrt53_scaled)
  have "0 < r" using r by (smt (verit) zero_less_power)
  then show ?thesis by (simp add: v)
qed

lemma sqrt53_eq_0_iff: "0 \<le> x \<Longrightarrow> sqrt53 x = 0 \<longleftrightarrow> x = 0"
  using sqrt53_pos [of x] by (cases "x = 0") auto

lemma sqrt53_error:
  assumes "0 \<le> x"
  shows "\<bar>sqrt53 x - sqrt x\<bar> \<le> sqrt x / 2 ^ 53"
proof (cases "x = 0")
  case True
  then show ?thesis by simp
next
  case False
  with assms have "0 < x" by simp
  then obtain s r where v: "sqrt53 x = of_int r * pow2 s"
    and lo: "pow2 (s + 52) \<le> sqrt x"
    and near: "\<bar>of_int r - sqrt x / pow2 s\<bar> \<le> 1 / 2"
    by (rule sqrt53_scaled)
  have "sqrt53 x - sqrt x = (of_int r - sqrt x / pow2 s) * pow2 s"
    unfolding v by (simp add: algebra_simps)
  then have "\<bar>sqrt53 x - sqrt x\<bar> = \<bar>of_int r - sqrt x / pow2 s\<bar> * pow2 s"
    by (simp add: abs_mult)
  also have "\<dots> \<le> 1 / 2 * pow2 s"
    using near by (intro mult_right_mono) simp_all
  also have "\<dots> = pow2 (s + 52) / 2 ^ 53"
    by (simp add: pow2_add)
  also have "\<dots> \<le> sqrt x / 2 ^ 53"
    using lo by (intro divide_right_mono) simp_all
  finally show ?thesis .
qed

lemma natDot_simps [simp]:
  "natDot [] ms = 0" "natDot ns [] = 0" "natDot (n # ns) (m # ms) = n * m + natDot ns ms"
  by (simp_all add: natDot_def)

lemma normSq_simps [simp]: "normSq [] = 0" "normSq (n # ns) = n * n + normSq ns"
  by (simp_all add: normSq_def)

lemma fadd_nat:
  "a + b < 2 ^ 53 \<Longrightarrow> fadd (Fin (of_nat a)) (Fin (of_nat b)) = Fin (of_nat (a + b))"
  using round53_of_nat [of "a + b"] by simp

lemma fmul_nat:
  "a * b < 2 ^ 53 \<Longrightarrow> fmul (Fin (of_nat a)) (Fin (of_nat b)) = Fin (of_nat (a * b))"
  using round53_of_nat [of "a * b"] by simp

lemma sumSquares_from:
  "a + normSq ns < 2 ^ 53 \<Longrightarrow>
   foldl (\<lambda>acc val. fadd acc (fmul (toNumber val) (toNumber val))) (Fin (of_nat a)) (map Num ns)
     = Fin (of_nat (a + normSq ns))"
proof (induction ns arbitrary: a)
  case Nil
  then show ?case by simp
next
  case (Cons n ns)
  let ?F = "\<lambda>acc val. fadd acc (fmul (toNumber val) (toNumber val))"
  have sq: "n * n < 2 ^ 53" and step: "a + n * n < 2 ^ 53"
    using Cons.prems by simp_all
  have rest: "(a + n * n) + normSq ns < 2 ^ 53"
    using Cons.prems by (simp add: add.assoc)
  have "?F (Fin (of_nat a)) (Num n) = Fin (of_nat (a + n * n))"
    by (simp only: toNumber.simps fmul_nat [OF sq] fadd_nat [OF step])
  then have "foldl ?F (Fin (of_nat a)) (map Num (n # ns))
               = foldl ?F (Fin (of_nat (a + n * n))) (map Num ns)"
    by (simp only: list.map foldl_Cons)
  also have "\<dots> = Fin (of_nat ((a + n * n) + normSq ns))"
    by (rule Cons.IH [OF rest])
  finally show ?case
    by (simp only: normSq_simps add.assoc)
qed

lemma sumSquares_Num:
  "normSq ns < 2 ^ 53 \<Longrightarrow> sumSquares (map Num ns) = Fin (of_nat (normSq ns))"
  using sumSquares_from [of 0 ns] by (simp add: sumSquares_def)

lemma dotFrom_Num:
  "length ns = length ms \<Longrightarrow> a + natDot ns ms < 2 ^ 53 \<Longrightarrow>
   dotFrom (Fin (of_nat a)) (map Num ns) (map Num ms) = Fin (of_nat (a + natDot ns ms))"
proof (induction ns ms arbitrary: a rule: list_induct2)
  case Nil
  then show ?case by simp
next
  case (Cons n ns m ms)
  have pr: "n * m < 2 ^ 53" and step: "a + n * m < 2 ^ 53"
    using Cons.prems by simp_all
  have rest: "(a + n * m) + natDot ns ms < 2 ^ 53"
    using Cons.prems by (simp add: add.assoc)
  have "dotFrom (Fin (of_nat a)) (map Num (n # ns)) (map Num (m # ms))
          = dotFrom (Fin (of_nat (a + n * m))) (map Num ns) (map Num ms)"
    by (simp only: list.map dotFrom.simps list.case list.sel toNumber.simps
        fmul_nat [OF pr] fadd_nat [OF step])
  also have "\<dots> = Fin (of_nat ((a + n * m) + natDot ns ms))"
    by (rule Cons.IH [OF rest])
  finally show ?case
    by (simp only: natDot_simps add.assoc)
qed

lemma cosineSimilarity_Num:
  assumes "length ns = length ms" and "natDot ns ms < 2 ^ 53"
    and "normSq ns < 2 ^ 53" and "normSq ms < 2 ^ 53"
  shows "cosineSimilarity (map Num ns) (map Num ms)
     = (if normSq ns = 0 \<or> normSq ms = 0 then Fin 0
        else Fin (round53 (of_nat (natDot ns ms)
               / round53 (sqrt53 (of_nat (normSq ns)) * sqrt53 (of_nat (normSq ms))))))"
proof -
  have d: "dotFrom (Fin 0) (map Num ns) (map Num ms) = Fin (of_nat (natDot ns ms))"
    using dotFrom_Num [OF assms(1), of 0] assms(2) by simp
  have z: "sqrt53 (of_nat n) = 0 \<longleftrightarrow> n = 0" for n
    using sqrt53_eq_0_iff [of "of_nat n"] by simp
  show ?thesis
    by (simp add: cosineSimilarity_def Let_def d sumSquares_Num [OF assms(3)]
        sumSquares_Num [OF assms(4)] z)
qed

section \<open>Scenario B\<close>

lemma scenario_embeddings:
  "createSimpleEmbedding scenarioQuery = map Num queryCounts"
  "createSimpleEmbedding ''John Smith signed the agreement'' = map Num firstCounts"
  "createSimpleEmbedding '' Payment of $500 is due January 1, 2024'' = map Num secondCounts"
  "createSimpleEmbedding '' The warranty expires after one year'' = map Num thirdCounts"
  by code_simp+

lemma scenario_counts:
  "length queryCounts = 100" "length firstCounts = 100" "length secondCounts = 100"
  "length thirdCounts = 100"
  "normSq queryCounts = 4" "normSq firstCounts = 5" "normSq secondCounts = 8"
  "normSq thirdCounts = 6"
  "natDot queryCounts firstCounts = 0" "natDot queryCounts secondCounts = 3"
  "natDot queryCounts thirdCounts = 0"
  by code_simp+

lemma positive_compareSimilarity:
  "similarity a = Fin x \<Longrightarrow> similarity b = Fin y \<Longrightarrow>
   positive (compareSimilarity a b) \<longleftrightarrow> x < y"
  by (simp add: positive_def compareSimilarity_def)

lemma scenario_similarities:
  "cosineSimilarity (createSimpleEmbedding scenarioQuery)
     (createSimpleEmbedding ''John Smith signed the agreement'') = Fin 0"
  "cosineSimilarity (createSimpleEmbedding scenarioQuery)
     (createSimpleEmbedding '' Payment of $500 is due January 1, 2024'')
     = Fin (round53 (3 / round53 (sqrt53 4 * sqrt53 8)))"
  "cosineSimilarity (createSimpleEmbedding scenarioQuery)
     (createSimpleEmbedding '' The warranty expires after one year'') = Fin 0"
  unfolding scenario_embeddings
  by (subst cosineSimilarity_Num; simp add: scenario_counts)+

lemma scenario_second_positive: "0 < round53 (3 / round53 (sqrt53 4 * sqrt53 8))"
  by (simp add: sqrt53_pos)

text \<open>
  Claim C7. For the document and the query of Scenario B (and the default \<open>topK = 5\<close>) the
  selector returns the three sentences with the one that contains \<open>$500\<close> first: it shares
  three buckets with the query and has a positive similarity, the other two share none and
  have similarity 0.
\<close>

theorem scenario_top_passage:
  "findRelevantPassages scenarioQuery scenarioDocument 5
     = [''Payment of $500 is due January 1, 2024'', ''John Smith signed the agreement'',
        ''The warranty expires after one year'']"
proof -
  have ne: "qualifyingSentences scenarioDocument \<noteq> []"
    by (simp add: qualifying_scenarioDocument)
  define v where "v = round53 (3 / round53 (sqrt53 4 * sqrt53 8))"
  have v: "0 < v" unfolding v_def by (rule scenario_second_positive)
  show ?thesis
    unfolding findRelevantPassages_sorted [OF ne] qualifying_scenarioDocument
    using v
    by (simp add: scenario_similarities trim_scenario_sentences jsSort_def
        positive_compareSimilarity slice0_def flip: v_def)
qed

section \<open>Properties of the embedding and of the ordering\<close>
subsection \<open>trim does not change the embedding\<close>

lemma of_char_toLowerChar_cases:
  "toLowerChar c = c \<or> (97 \<le> (of_char (toLowerChar c) :: nat) \<and> (of_char (toLowerChar c) :: nat) \<le> 122)
   \<or> (224 \<le> (of_char (toLowerChar c) :: nat) \<and> (of_char (toLowerChar c) :: nat) \<le> 254)"
proof -
  define n where "n = (of_char c :: nat)"
  have n: "n < 256" by (simp add: n_def)
  show ?thesis
  proof (cases "(65 \<le> n \<and> n \<le> 90) \<or> (192 \<le> n \<and> n \<le> 222 \<and> n \<noteq> 215)")
    case True
    then have lc: "toLowerChar c = char_of (n + 32)"
      by (simp add: toLowerChar_def Let_def n_def)
    have "n + 32 < 256"
      using True by auto
    then have "(of_char (char_of (n + 32)) :: nat) = n + 32"
      by simp
    with True show ?thesis unfolding lc by auto
  next
    case False
    then show ?thesis
      by (simp add: toLowerChar_def Let_def n_def)
  qed
qed

lemma isSpace_toLowerChar [simp]: "isSpace (toLowerChar c) = isSpace c"
proof (cases "toLowerChar c = c")
  case True
  then show ?thesis by simp
next
  case False
  then have up: "(65 \<le> (of_char c :: nat) \<and> (of_char c :: nat) \<le> 90)
      \<or> (192 \<le> (of_char c :: nat) \<and> (of_char c :: nat) \<le> 222 \<and> (of_char c :: nat) \<noteq> 215)"
    by (auto simp add: toLowerChar_def Let_def split: if_splits)
  from False of_char_toLowerChar_cases [of c]
  have "\<not> isSpace (toLowerChar c)"
    by (auto simp add: isSpace_def Let_def)
  moreover from up have "\<not> isSpace c"
    by (auto simp add: isSpace_def Let_def)
  ultimately show ?thesis by simp
qed

lemma toLowerCase_trim: "toLowerCase (trim s) = trim (toLowerCase s)"
  by (simp add: toLowerCase_def trim_def rev_map dropWhile_map comp_def)

lemma isSpace_not_word: "isSpace c \<Longrightarrow> \<not> isWordChar c"
  by (auto simp add: isSpace_def isWordChar_def Let_def)

lemma matchWords_dropWhile: "matchWords (dropWhile isSpace t) [] = matchWords t []"
  by (induction t) (simp_all add: isSpace_not_word)

lemma matchWords_nonword: "\<forall>c\<in>set sp. \<not> isWordChar c \<Longrightarrow> matchWords sp [] = []"
  by (induction sp) simp_all

lemma matchWords_append_nonword:
  "\<forall>c\<in>set sp. \<not> isWordChar c \<Longrightarrow> matchWords (u @ sp) cur = matchWords u cur"
proof (induction u arbitrary: cur)
  case Nil
  then show ?case
    by (cases sp) (simp_all add: matchWords_nonword)
next
  case (Cons a u)
  then show ?case by simp
qed

lemma matchWords_dropTrailing:
  "matchWords (rev (dropWhile isSpace (rev t))) cur = matchWords t cur"
proof -
  have "t = rev (dropWhile isSpace (rev t)) @ rev (takeWhile isSpace (rev t))"
    by (metis rev_append rev_rev_ident takeWhile_dropWhile_id)
  moreover have "\<forall>c\<in>set (rev (takeWhile isSpace (rev t))). \<not> isWordChar c"
    by (auto dest: set_takeWhileD simp: isSpace_not_word)
  ultimately show ?thesis
    using matchWords_append_nonword by metis
qed

lemma matchWords_trim: "matchWords (trim t) [] = matchWords t []"
  by (simp add: trim_def matchWords_dropTrailing matchWords_dropWhile)

lemma createSimpleEmbedding_trim: "createSimpleEmbedding (trim s) = createSimpleEmbedding s"
  by (simp add: createSimpleEmbedding_def wordFreqOf_def toLowerCase_trim matchWords_trim)

subsection \<open>Without the word constructor, the embedding holds numbers only\<close>

lemma isNum_Num [simp]: "isNum (Num n)"
  by (simp add: isNum_def)

lemma isNumE: "isNum v \<Longrightarrow> \<exists>n. v = Num n"
  by (cases v) (simp_all add: isNum_def)

lemma countWord_isNum:
  assumes "\<forall>v \<in> snd ` set own. isNum v" and "w \<noteq> ''constructor''"
  shows "\<forall>v \<in> snd ` set (countWord own w). isNum v"
proof (cases "map_of own w")
  case None
  then have notin: "w \<notin> fst ` set own"
    by (simp add: map_of_eq_None_iff)
  show ?thesis
  proof (cases "w = ''__proto__''")
    case True
    then show ?thesis
      using assms(1) by (simp add: countWord_def setProp_def)
  next
    case False
    then have "getProp own w = None"
      using None assms(2) by (simp add: getProp_def)
    then show ?thesis
      using assms(1) notin False by (auto simp add: countWord_def setProp_def orZero_def)
  qed
next
  case (Some v)
  then have "(w, v) \<in> set own"
    by (rule map_of_SomeD)
  then have "isNum v"
    using assms(1) by force
  then obtain n where v: "v = Num n"
    by (auto dest: isNumE)
  have g: "getProp own w = Some (Num n)"
    using Some v by (simp add: getProp_def)
  have "isNum (jsAdd (orZero (getProp own w)) (Num 1))"
    by (simp add: g orZero_def)
  then show ?thesis
    using assms(1) by (auto simp add: countWord_def setProp_def split: if_splits)
qed

lemma foldl_invariant:
  "I a \<Longrightarrow> (\<And>a x. I a \<Longrightarrow> P x \<Longrightarrow> I (f a x)) \<Longrightarrow> \<forall>x\<in>set xs. P x \<Longrightarrow> I (foldl f a xs)"
  by (induction xs arbitrary: a) auto

lemma foldl_countWord_isNum:
  assumes "\<forall>v \<in> snd ` set own. isNum v" and "\<forall>w \<in> set ws. w \<noteq> ''constructor''"
  shows "\<forall>v \<in> snd ` set (foldl countWord own ws). isNum v"
  using assms(1) countWord_isNum assms(2)
  by (rule foldl_invariant [where I = "\<lambda>own. \<forall>v \<in> snd ` set own. isNum v"
        and P = "\<lambda>w. w \<noteq> ''constructor''"])

lemma set_entries: "set (entries own) = set own"
  by (auto simp add: entries_def)

lemma addAt_isNum:
  assumes "list_all isNum embedding" and "isNum (snd e)"
  shows "list_all isNum (addAt embedding e)"
proof -
  obtain word freq where p: "e = (word, freq)" by (cases e)
  from assms(2) p obtain n where f: "freq = Num n" by (auto dest: isNumE)
  have "isNum (jsAdd (embedding ! i) (Num n))" if "i < length embedding" for i
  proof -
    from that assms(1) have "isNum (embedding ! i)"
      by (simp add: list_all_length)
    then obtain m where "embedding ! i = Num m"
      by (auto dest: isNumE)
    then show ?thesis by simp
  qed
  then show ?thesis
    using assms(1)
    by (cases "bucket word < length embedding")
      (simp_all add: addAt_def p f Let_def list_all_length nth_list_update)
qed

lemma foldl_addAt_isNum:
  "list_all isNum embedding \<Longrightarrow> \<forall>e \<in> set es. isNum (snd e) \<Longrightarrow>
   list_all isNum (foldl addAt embedding es)"
  by (induction es arbitrary: embedding) (simp_all add: addAt_isNum)

lemma length_addAt [simp]: "length (addAt embedding e) = length embedding"
  by (cases e) (simp add: addAt_def Let_def)

lemma length_foldl_addAt [simp]: "length (foldl addAt embedding es) = length embedding"
  by (induction es arbitrary: embedding) simp_all

lemma length_createSimpleEmbedding [simp]: "length (createSimpleEmbedding s) = 100"
  by (simp add: createSimpleEmbedding_def)

lemma list_all_isNum_map: "list_all isNum xs \<Longrightarrow> \<exists>ns. xs = map Num ns"
proof (induction xs)
  case Nil
  then show ?case by simp
next
  case (Cons x xs)
  then obtain n ns where "x = Num n" "xs = map Num ns"
    by (auto dest: isNumE)
  then have "x # xs = map Num (n # ns)" by simp
  then show ?case by (rule exI)
qed

lemma createSimpleEmbedding_numbers:
  assumes "''constructor'' \<notin> set (matchWords (toLowerCase s) [])"
  shows "\<exists>ns. createSimpleEmbedding s = map Num ns \<and> length ns = 100"
proof -
  have "\<forall>w \<in> set (matchWords (toLowerCase s) []). w \<noteq> ''constructor''"
    using assms by blast
  then have "\<forall>v \<in> snd ` set (wordFreqOf s). isNum v"
    unfolding wordFreqOf_def by (intro foldl_countWord_isNum) simp_all
  then have "\<forall>e \<in> set (entries (wordFreqOf s)). isNum (snd e)"
    by (simp add: set_entries)
  moreover have "list_all isNum (replicate 100 (Num 0))"
    by (simp add: list_all_iff)
  ultimately have "list_all isNum (createSimpleEmbedding s)"
    unfolding createSimpleEmbedding_def by (intro foldl_addAt_isNum)
  then obtain ns where ns: "createSimpleEmbedding s = map Num ns"
    using list_all_isNum_map by blast
  have "length (createSimpleEmbedding s) = 100"
    by (rule length_createSimpleEmbedding)
  then have "length ns = 100"
    unfolding ns by (simp only: length_map)
  with ns show ?thesis by blast
qed

subsection \<open>The similarity of two vectors of numbers is a number\<close>

lemma sumSquares_finite_from:
  "0 \<le> a \<Longrightarrow> \<exists>v\<ge>0. foldl (\<lambda>acc val. fadd acc (fmul (toNumber val) (toNumber val))) (Fin a) (map Num ns) = Fin v"
proof (induction ns arbitrary: a)
  case Nil
  then show ?case by simp
next
  case (Cons n ns)
  have "0 \<le> round53 (a + round53 (of_nat n * of_nat n))"
    using Cons.prems by (intro round53_nonneg add_nonneg_nonneg) simp_all
  from Cons.IH [OF this] show ?case by simp
qed

lemma sumSquares_finite: "\<exists>v\<ge>0. sumSquares (map Num ns) = Fin v"
  unfolding sumSquares_def by (rule sumSquares_finite_from) simp

lemma dotFrom_finite:
  "length ns = length ms \<Longrightarrow> 0 \<le> a \<Longrightarrow>
   \<exists>v\<ge>0. dotFrom (Fin a) (map Num ns) (map Num ms) = Fin v"
proof (induction ns ms arbitrary: a rule: list_induct2)
  case Nil
  then show ?case by simp
next
  case (Cons n ns m ms)
  have "0 \<le> round53 (a + round53 (of_nat n * of_nat m))"
    using Cons.prems by (intro round53_nonneg add_nonneg_nonneg) simp_all
  from Cons.IH [OF this] show ?case by simp
qed

lemma sqrt53_nonneg: "0 \<le> x \<Longrightarrow> 0 \<le> sqrt53 x"
  using sqrt53_pos [of x] by (cases "x = 0") (simp_all add: less_imp_le)

lemma cosineSimilarity_finite:
  assumes "length ns = length ms"
  shows "\<exists>v\<ge>0. cosineSimilarity (map Num ns) (map Num ms) = Fin v"
proof -
  obtain d where d: "0 \<le> d" "dotFrom (Fin 0) (map Num ns) (map Num ms) = Fin d"
    using dotFrom_finite [OF assms, of 0] by auto
  obtain sa where sa: "0 \<le> sa" "sumSquares (map Num ns) = Fin sa"
    using sumSquares_finite by blast
  obtain sb where sb: "0 \<le> sb" "sumSquares (map Num ms) = Fin sb"
    using sumSquares_finite by blast
  have ma: "fsqrt (sumSquares (map Num ns)) = Fin (sqrt53 sa)"
    and mb: "fsqrt (sumSquares (map Num ms)) = Fin (sqrt53 sb)"
    using sa sb by simp_all
  show ?thesis
  proof (cases "sqrt53 sa = 0 \<or> sqrt53 sb = 0")
    case True
    then show ?thesis
      by (auto simp add: cosineSimilarity_def Let_def ma mb)
  next
    case False
    then have "0 < sqrt53 sa" "0 < sqrt53 sb"
      using sqrt53_nonneg [OF sa(1)] sqrt53_nonneg [OF sb(1)] by simp_all
    then have p: "0 < sqrt53 sa * sqrt53 sb"
      by simp
    then have "0 \<le> round53 (d / round53 (sqrt53 sa * sqrt53 sb))"
      using d(1) by (intro round53_nonneg divide_nonneg_nonneg) (simp_all add: less_imp_le)
    then show ?thesis
      using False p by (simp add: cosineSimilarity_def Let_def ma mb d(2))
  qed
qed

subsection \<open>The sort orders finite similarities\<close>

lemma sorted_insertSorted:
  assumes "\<forall>z\<in>set (x # ys). \<exists>v. similarity z = Fin v"
    and "sorted_wrt (\<lambda>a b. numGe (similarity a) (similarity b)) ys"
  shows "sorted_wrt (\<lambda>a b. numGe (similarity a) (similarity b)) (insertSorted compareSimilarity x ys)"
  using assms
proof (induction ys)
  case Nil
  then show ?case by simp
next
  case (Cons y ys)
  obtain vx vy where vx: "similarity x = Fin vx" and vy: "similarity y = Fin vy"
    using Cons.prems(1) by auto
  have tail: "\<forall>z\<in>set ys. numGe (similarity y) (similarity z)"
    and sorted_tail: "sorted_wrt (\<lambda>a b. numGe (similarity a) (similarity b)) ys"
    using Cons.prems(2) by simp_all
  show ?case
  proof (cases "vx < vy")
    case True
    have "sorted_wrt (\<lambda>a b. numGe (similarity a) (similarity b)) (insertSorted compareSimilarity x ys)"
      using Cons.prems(1) sorted_tail by (intro Cons.IH) simp_all
    moreover have "numGe (similarity y) (similarity x)"
      using True by (simp add: numGe_def vx vy)
    ultimately show ?thesis
      using True tail by (simp add: positive_compareSimilarity [OF vx vy] set_insertSorted)
  next
    case False
    have "numGe (similarity x) (similarity z)" if "z \<in> set (y # ys)" for z
    proof -
      from that have "z \<in> set (x # y # ys)" by simp
      with Cons.prems(1) obtain vz where vz: "similarity z = Fin vz"
        by blast
      have "vz \<le> vy"
      proof (cases "z = y")
        case True
        then show ?thesis using vy vz by simp
      next
        case False
        with that have "z \<in> set ys" by simp
        with tail have "numGe (similarity y) (similarity z)" by blast
        then show ?thesis by (simp add: numGe_def vy vz)
      qed
      with False show ?thesis
        by (simp add: numGe_def vx vz)
    qed
    then show ?thesis
      using False Cons.prems(2) by (simp add: positive_compareSimilarity [OF vx vy])
  qed
qed

lemma sorted_jsSort:
  "\<forall>z\<in>set xs. \<exists>v. similarity z = Fin v \<Longrightarrow>
   sorted_wrt (\<lambda>a b. numGe (similarity a) (similarity b)) (jsSort compareSimilarity xs)"
proof (induction xs)
  case Nil
  then show ?case by (simp add: jsSort_def)
next
  case (Cons x xs)
  have "sorted_wrt (\<lambda>a b. numGe (similarity a) (similarity b)) (jsSort compareSimilarity xs)"
    using Cons by simp
  moreover have "\<forall>z\<in>set (x # jsSort compareSimilarity xs). \<exists>v. similarity z = Fin v"
    using Cons.prems by (simp add: set_jsSort)
  ultimately have "sorted_wrt (\<lambda>a b. numGe (similarity a) (similarity b))
      (insertSorted compareSimilarity x (jsSort compareSimilarity xs))"
    by (intro sorted_insertSorted)
  then show ?case by (simp add: jsSort_def)
qed

lemma similarityTo_trim: "similarityTo q (trim s) = similarityTo q s"
  by (simp add: similarityTo_def createSimpleEmbedding_trim)

lemma similarityTo_finite:
  assumes "''constructor'' \<notin> set (matchWords (toLowerCase q) [])"
    and "''constructor'' \<notin> set (matchWords (toLowerCase s) [])"
  shows "\<exists>v\<ge>0. similarityTo q s = Fin v"
proof -
  obtain ns ms where "createSimpleEmbedding q = map Num ns" "length ns = 100"
    "createSimpleEmbedding s = map Num ms" "length ms = 100"
    using createSimpleEmbedding_numbers [OF assms(1)] createSimpleEmbedding_numbers [OF assms(2)]
    by blast
  then show ?thesis
    using cosineSimilarity_finite [of ns ms] by (simp add: similarityTo_def)
qed

text \<open>
  Claim C3, amended. When at least one fragment qualifies and \<open>k \<ge> 0\<close>, the selector
  returns at most \<open>k\<close> passages, each the trimmed form of a fragment of the sentence split
  whose trimmed length exceeds 30; and when neither the query nor a qualifying fragment
  contains the word \<open>constructor\<close> (so that every similarity is a number), the passages
  are in order of non-increasing cosine similarity between their embedding and the
  embedding of the query.
\<close>

theorem top_k_ordering:
  assumes "0 \<le> k" and "qualifyingSentences doc \<noteq> []"
  shows "length (findRelevantPassages q doc k) \<le> nat k
       \<and> set (findRelevantPassages q doc k)
           \<subseteq> trim ` {s \<in> set (splitSentences doc). 30 < length (trim s)}
       \<and> (''constructor'' \<notin> set (matchWords (toLowerCase q) [])
            \<and> (\<forall>s \<in> set (qualifyingSentences doc).
                  ''constructor'' \<notin> set (matchWords (toLowerCase s) []))
          \<longrightarrow> sorted_wrt (\<lambda>a b. numGe (similarityTo q a) (similarityTo q b))
                (findRelevantPassages q doc k))"
proof -
  define mk where "mk = (\<lambda>s. \<lparr> sentence = trim s,
      similarity = cosineSimilarity (createSimpleEmbedding q) (createSimpleEmbedding s) \<rparr>)"
  define sims where "sims = map mk (qualifyingSentences doc)"
  define sorted where "sorted = jsSort compareSimilarity sims"
  have res: "findRelevantPassages q doc k = map sentence (take (nat k) sorted)"
    using assms by (simp add: findRelevantPassages_sorted slice0_def sorted_def sims_def mk_def)
  have len: "length (findRelevantPassages q doc k) \<le> nat k"
    by (simp add: res)
  have "set (take (nat k) sorted) \<subseteq> set sims"
    unfolding sorted_def
    using set_take_subset [of "nat k" "jsSort compareSimilarity sims"] by (simp add: set_jsSort)
  then have "set (findRelevantPassages q doc k) \<subseteq> sentence ` set sims"
    unfolding res by auto
  also have "sentence ` set sims = trim ` set (qualifyingSentences doc)"
    by (simp add: sims_def mk_def image_image)
  also have "set (qualifyingSentences doc) = {s \<in> set (splitSentences doc). 30 < length (trim s)}"
    by (auto simp add: qualifyingSentences_def)
  finally have sub: "set (findRelevantPassages q doc k)
      \<subseteq> trim ` {s \<in> set (splitSentences doc). 30 < length (trim s)}" .
  have ord: "sorted_wrt (\<lambda>a b. numGe (similarityTo q a) (similarityTo q b))
                (findRelevantPassages q doc k)"
    if hq: "''constructor'' \<notin> set (matchWords (toLowerCase q) [])"
      and hs: "\<forall>s \<in> set (qualifyingSentences doc). ''constructor'' \<notin> set (matchWords (toLowerCase s) [])"
  proof -
    have key: "similarity x = similarityTo q (sentence x)" if "x \<in> set sims" for x
    proof -
      from that obtain s where x: "x = mk s"
        by (auto simp add: sims_def)
      have "similarity x = similarityTo q s"
        by (simp add: x mk_def similarityTo_def)
      also have "\<dots> = similarityTo q (trim s)"
        by (simp only: similarityTo_trim)
      also have "trim s = sentence x"
        by (simp add: x mk_def)
      finally show ?thesis .
    qed
    have fin: "\<forall>z\<in>set sims. \<exists>v. similarity z = Fin v"
    proof
      fix z assume "z \<in> set sims"
      then obtain s where s: "s \<in> set (qualifyingSentences doc)" and z: "z = mk s"
        by (auto simp add: sims_def)
      from hs s have "''constructor'' \<notin> set (matchWords (toLowerCase s) [])"
        by (rule bspec)
      from similarityTo_finite [OF hq this] obtain v where "similarityTo q s = Fin v"
        by (elim exE conjE)
      then show "\<exists>v. similarity z = Fin v"
        by (simp add: z mk_def similarityTo_def)
    qed
    then have "sorted_wrt (\<lambda>a b. numGe (similarity a) (similarity b)) sorted"
      unfolding sorted_def by (rule sorted_jsSort)
    then have st: "sorted_wrt (\<lambda>a b. numGe (similarity a) (similarity b)) (take (nat k) sorted)"
      by (rule sorted_wrt_take)
    have sub': "set (take (nat k) sorted) \<subseteq> set sims"
      by fact
    have "sorted_wrt (\<lambda>a b. numGe (similarityTo q (sentence a)) (similarityTo q (sentence b)))
        (take (nat k) sorted)"
    proof (rule sorted_wrt_mono_rel [where P = "\<lambda>a b. numGe (similarity a) (similarity b)"])
      show "sorted_wrt (\<lambda>a b. numGe (similarity a) (similarity b)) (take (nat k) sorted)"
        by (rule st)
    next
      fix a b
      assume a: "a \<in> set (take (nat k) sorted)" and b: "b \<in> set (take (nat k) sorted)"
        and ge: "numGe (similarity a) (similarity b)"
      from sub' a have "a \<in> set sims" by (rule subsetD)
      then have ka: "similarity a = similarityTo q (sentence a)" by (rule key)
      from sub' b have "b \<in> set sims" by (rule subsetD)
      then have kb: "similarity b = similarityTo q (sentence b)" by (rule key)
      from ge show "numGe (similarityTo q (sentence a)) (similarityTo q (sentence b))"
        unfolding ka kb .
    qed
    then show ?thesis
      by (simp add: res sorted_wrt_map)
  qed
  show ?thesis
  proof (intro conjI impI)
    show "length (findRelevantPassages q doc k) \<le> nat k" by (rule len)
    show "set (findRelevantPassages q doc k)
           \<subseteq> trim ` {s \<in> set (splitSentences doc). 30 < length (trim s)}" by (rule sub)
    assume "''constructor'' \<notin> set (matchWords (toLowerCase q) [])
            \<and> (\<forall>s \<in> set (qualifyingSentences doc).
                  ''constructor'' \<notin> set (matchWords (toLowerCase s) []))"
    then show "sorted_wrt (\<lambda>a b. numGe (similarityTo q a) (similarityTo q b))
                (findRelevantPassages q doc k)"
      by (intro ord) (erule conjunct1, erule conjunct2)
  qed
qed

theorem top_k_ordering_witness:
  "(0::int) \<le> 2 \<and> qualifyingSentences scenarioDocument \<noteq> []
   \<and> ''constructor'' \<notin> set (matchWords (toLowerCase scenarioQuery) [])
   \<and> list_all (\<lambda>s. ''constructor'' \<notin> set (matchWords (toLowerCase s) []))
         (qualifyingSentences scenarioDocument)
   \<and> length (findRelevantPassages scenarioQuery scenarioDocument 2) \<le> 2
   \<and> set (findRelevantPassages scenarioQuery scenarioDocument 2)
        \<subseteq> trim ` {s \<in> set (splitSentences scenarioDocument). 30 < length (trim s)}
   \<and> sorted_wrt (\<lambda>a b. numGe (similarityTo scenarioQuery a) (similarityTo scenarioQuery b))
         (findRelevantPassages scenarioQuery scenarioDocument 2)"
proof -
  have k: "(0::int) \<le> 2" by simp
  have ne: "qualifyingSentences scenarioDocument \<noteq> []"
    by (simp add: qualifying_scenarioDocument)
  have hq: "''constructor'' \<notin> set (matchWords (toLowerCase scenarioQuery) [])"
    by code_simp
  have hs: "list_all (\<lambda>s. ''constructor'' \<notin> set (matchWords (toLowerCase s) []))
         (qualifyingSentences scenarioDocument)"
    unfolding qualifying_scenarioDocument by code_simp
  then have hs': "\<forall>s \<in> set (qualifyingSentences scenarioDocument).
      ''constructor'' \<notin> set (matchWords (toLowerCase s) [])"
    by (simp only: list_all_iff)
  note t = top_k_ordering [OF k ne, of scenarioQuery]
  have len: "length (findRelevantPassages scenarioQuery scenarioDocument 2) \<le> 2"
    using t [THEN conjunct1] by simp
  note sub = t [THEN conjunct2, THEN conjunct1]
  note ord = t [THEN conjunct2, THEN conjunct2, THEN mp, OF conjI, OF hq hs']
  show ?thesis
    using k ne hq hs len sub ord by (intro conjI)
qed

text \<open>
  Claim C3, as stated, fails when no fragment qualifies: the selector then returns the
  first 1000 characters of the document, here for \<open>k = 0\<close> one string (more than \<open>k\<close>)
  that is none of the trimmed fragments of the sentence split.
\<close>

theorem fallback_is_not_a_fragment:
  "qualifyingSentences ''Hi. There.'' = []
   \<and> findRelevantPassages ''Hello?'' ''Hi. There.'' 0 = [''Hi. There.'']
   \<and> length (findRelevantPassages ''Hello?'' ''Hi. There.'' 0) > nat 0
   \<and> trim ` set (splitSentences ''Hi. There.'') = {''Hi'', ''There'', []}
   \<and> ''Hi. There.'' \<notin> trim ` set (splitSentences ''Hi. There.'')"
proof -
  have q: "qualifyingSentences ''Hi. There.'' = []"
    by code_simp
  have s: "map trim (splitSentences ''Hi. There.'') = [''Hi'', ''There'', []]"
    by code_simp
  have "trim ` set (splitSentences ''Hi. There.'') = set (map trim (splitSentences ''Hi. There.''))"
    by simp
  then have t: "trim ` set (splitSentences ''Hi. There.'') = {''Hi'', ''There'', []}"
    unfolding s by simp
  show ?thesis
    unfolding t using q by (simp add: findRelevantPassages_fallback substring0_def)
qed

section \<open>Properties of the cosine similarity\<close>

text \<open>The rounding agrees with IEEE 754 double arithmetic on sample values (among them
  two ties, rounded to even).\<close>

lemma rounding_examples:
  "round53 (1 / 10) = 3602879701896397 / 36028797018963968"
  "round53 9007199254740993 = 9007199254740992"
  "round53 9007199254740995 = 9007199254740996"
  "sqrt53 2 = 6369051672525773 / 4503599627370496"
  "sqrt53 (1 / 2) = 6369051672525773 / 9007199254740992"
  "round53 (2 / round53 (sqrt53 2 * sqrt53 2)) = 4503599627370495 / 4503599627370496"
  by code_simp+

lemma normSq_replicate_0 [simp]: "normSq (replicate n 0) = 0"
  by (induction n) simp_all

lemma natDot_replicate_0 [simp]: "natDot (replicate n 0) (replicate n 0) = 0"
  by (induction n) simp_all

lemma three_ones_rounded:
  "round53 (3 / round53 (sqrt53 3 * sqrt53 3)) = 4503599627370497 / 4503599627370496"
  by code_simp

text \<open>
  Claim C4, as stated, fails in double arithmetic: for the vector with three components 1
  and 97 components 0 the square root of 3 is rounded down, its square is rounded to the
  double below 3, and the quotient is \<open>1 + 2^-52\<close>: not 1, and outside \<open>[0, 1]\<close>.
\<close>

theorem self_similarity_above_one:
  "length threeOnes = 100
   \<and> cosineSimilarity threeOnes threeOnes = Fin (4503599627370497 / 4503599627370496)
   \<and> (1 :: real) < 4503599627370497 / 4503599627370496"
proof -
  have "cosineSimilarity (map Num ([1, 1, 1] @ replicate 97 0)) (map Num ([1, 1, 1] @ replicate 97 0))
          = Fin (round53 (3 / round53 (sqrt53 3 * sqrt53 3)))"
    by (subst cosineSimilarity_Num) simp_all
  then show ?thesis
    by (simp add: threeOnes_def threeOnesCounts_def three_ones_rounded)
qed

lemma round53_bounds:
  assumes "0 \<le> x"
  shows "(1 - 1 / 2 ^ 53) * x \<le> round53 x" and "round53 x \<le> (1 + 1 / 2 ^ 53) * x"
proof -
  have "\<bar>round53 x - x\<bar> \<le> x / 2 ^ 53"
    using round53_error [of x] assms by simp
  then have "x - x / 2 ^ 53 \<le> round53 x" and "round53 x \<le> x + x / 2 ^ 53"
    by linarith+
  then show "(1 - 1 / 2 ^ 53) * x \<le> round53 x" and "round53 x \<le> (1 + 1 / 2 ^ 53) * x"
    by (simp_all add: algebra_simps)
qed

lemma sqrt53_bounds:
  assumes "0 \<le> x"
  shows "(1 - 1 / 2 ^ 53) * sqrt x \<le> sqrt53 x" and "sqrt53 x \<le> (1 + 1 / 2 ^ 53) * sqrt x"
proof -
  have "\<bar>sqrt53 x - sqrt x\<bar> \<le> sqrt x / 2 ^ 53"
    by (rule sqrt53_error [OF assms])
  then have "sqrt x - sqrt x / 2 ^ 53 \<le> sqrt53 x" and "sqrt53 x \<le> sqrt x + sqrt x / 2 ^ 53"
    by linarith+
  then show "(1 - 1 / 2 ^ 53) * sqrt x \<le> sqrt53 x" and "sqrt53 x \<le> (1 + 1 / 2 ^ 53) * sqrt x"
    by (simp_all add: algebra_simps)
qed

lemma cauchy_schwarz_step:
  fixes x y d a b :: real
  assumes "0 \<le> x" "0 \<le> y" "0 \<le> d" "0 \<le> a" "0 \<le> b" "d\<^sup>2 \<le> a * b"
  shows "(x * y + d)\<^sup>2 \<le> (x\<^sup>2 + a) * (y\<^sup>2 + b)"
proof -
  have "d \<le> sqrt (a * b)"
    using assms(6) by (rule real_le_rsqrt)
  then have d: "d \<le> sqrt a * sqrt b"
    by (simp add: real_sqrt_mult)
  have "2 * (x * sqrt b) * (y * sqrt a) \<le> (x * sqrt b)\<^sup>2 + (y * sqrt a)\<^sup>2"
    by (rule sum_squares_bound)
  also have "\<dots> = x\<^sup>2 * b + y\<^sup>2 * a"
    using assms(4,5) by (simp add: power_mult_distrib)
  finally have am: "2 * (x * y) * (sqrt a * sqrt b) \<le> x\<^sup>2 * b + y\<^sup>2 * a"
    by (simp add: mult_ac)
  have "2 * (x * y) * d \<le> 2 * (x * y) * (sqrt a * sqrt b)"
    using d assms(1,2) by (intro mult_left_mono) simp_all
  with am have "2 * (x * y) * d \<le> x\<^sup>2 * b + y\<^sup>2 * a"
    by linarith
  moreover have "(x * y + d)\<^sup>2 = x\<^sup>2 * y\<^sup>2 + 2 * (x * y) * d + d\<^sup>2"
    by (simp add: power2_eq_square algebra_simps)
  moreover have "(x\<^sup>2 + a) * (y\<^sup>2 + b) = x\<^sup>2 * y\<^sup>2 + (x\<^sup>2 * b + y\<^sup>2 * a) + a * b"
    by (simp add: algebra_simps)
  ultimately show ?thesis
    using assms(6) by linarith
qed

lemma cauchy_schwarz_counts:
  "(real (natDot ns ms))\<^sup>2 \<le> real (normSq ns) * real (normSq ms)"
proof (induction ns arbitrary: ms)
  case Nil
  then show ?case by simp
next
  case (Cons n ns)
  show ?case
  proof (cases ms)
    case Nil
    then show ?thesis by simp
  next
    case (Cons m ms')
    have "(real n * real m + real (natDot ns ms'))\<^sup>2
            \<le> ((real n)\<^sup>2 + real (normSq ns)) * ((real m)\<^sup>2 + real (normSq ms'))"
      by (rule cauchy_schwarz_step) (simp_all add: Cons.IH)
    then show ?thesis
      by (simp add: Cons power2_eq_square)
  qed
qed

lemma natDot_le_norms:
  "real (natDot ns ms) \<le> sqrt (real (normSq ns)) * sqrt (real (normSq ms))"
proof -
  have "real (natDot ns ms) \<le> sqrt (real (normSq ns) * real (normSq ms))"
    using cauchy_schwarz_counts by (rule real_le_rsqrt)
  then show ?thesis by (simp add: real_sqrt_mult)
qed

lemma natDot_small:
  assumes "normSq ns < 2 ^ 53" and "normSq ms < 2 ^ 53"
  shows "natDot ns ms < 2 ^ 53"
proof -
  have "real ((natDot ns ms)\<^sup>2) \<le> real (normSq ns * normSq ms)"
    using cauchy_schwarz_counts [of ns ms] by simp
  then have cs: "(natDot ns ms)\<^sup>2 \<le> normSq ns * normSq ms"
    by (simp only: of_nat_le_iff)
  have "normSq ns * normSq ms < 2 ^ 53 * 2 ^ 53"
    using assms by (intro mult_strict_mono) simp_all
  with cs have "(natDot ns ms)\<^sup>2 < (2 ^ 53)\<^sup>2"
    by (simp only: power2_eq_square)
  then show ?thesis
    by (rule power2_less_imp_less) simp
qed

lemma natDot_self [simp]: "natDot ns ns = normSq ns"
  by (induction ns) simp_all

lemma unit_roundoff_upper: "(1 + 1 / 2 ^ 53) \<le> (1 + 1 / 2 ^ 50) * ((1 - 1 / 2 ^ 53) ^ 3 :: real)"
  by (simp add: power3_eq_cube)

lemma unit_roundoff_lower: "(1 - 1 / 2 ^ 50) * ((1 + 1 / 2 ^ 53) ^ 3 :: real) \<le> 1 - 1 / 2 ^ 53"
  by (simp add: power3_eq_cube)

lemma rounded_quotient_bounds:
  fixes u D ra rb sa sb P Q :: real
  assumes u: "0 \<le> u" "u < 1"
    and ra: "0 < ra" and rb: "0 < rb"
    and sa: "(1 - u) * ra \<le> sa" "sa \<le> (1 + u) * ra"
    and sb: "(1 - u) * rb \<le> sb" "sb \<le> (1 + u) * rb"
    and P: "(1 - u) * (sa * sb) \<le> P" "P \<le> (1 + u) * (sa * sb)"
    and Q: "(1 - u) * (D / P) \<le> Q" "Q \<le> (1 + u) * (D / P)"
    and D: "0 \<le> D"
  shows "D \<le> ra * rb \<Longrightarrow> Q * (1 - u) ^ 3 \<le> 1 + u"
    and "D = ra * rb \<Longrightarrow> 1 - u \<le> Q * (1 + u) ^ 3"
proof -
  have u1: "0 < 1 - u" and u2: "0 < 1 + u"
    using u by simp_all
  have la: "0 \<le> (1 - u) * ra" and lb: "0 \<le> (1 - u) * rb"
    using u1 ra rb by simp_all
  have sa0: "0 \<le> sa" and sb0: "0 \<le> sb"
    using la lb sa(1) sb(1) by linarith+
  have "((1 - u) * ra) * ((1 - u) * rb) \<le> sa * sb"
    using sa(1) sb(1) la lb by (intro mult_mono) simp_all
  then have "(1 - u) * (((1 - u) * ra) * ((1 - u) * rb)) \<le> (1 - u) * (sa * sb)"
    using u1 by (intro mult_left_mono) simp_all
  with P(1) have "(1 - u) * (((1 - u) * ra) * ((1 - u) * rb)) \<le> P"
    by linarith
  moreover have "(1 - u) * (((1 - u) * ra) * ((1 - u) * rb)) = (ra * rb) * (1 - u) ^ 3"
    by (simp add: power3_eq_cube algebra_simps)
  ultimately have Plo: "(ra * rb) * (1 - u) ^ 3 \<le> P"
    by simp
  have "0 < (ra * rb) * (1 - u) ^ 3"
    using ra rb u1 by simp
  with Plo have Ppos: "0 < P" by linarith
  have "sa * sb \<le> ((1 + u) * ra) * ((1 + u) * rb)"
    using sa(2) sb(2) sa0 sb0 u2 ra rb by (intro mult_mono) simp_all
  then have "(1 + u) * (sa * sb) \<le> (1 + u) * (((1 + u) * ra) * ((1 + u) * rb))"
    using u2 by (intro mult_left_mono) simp_all
  with P(2) have "P \<le> (1 + u) * (((1 + u) * ra) * ((1 + u) * rb))"
    by linarith
  moreover have "(1 + u) * (((1 + u) * ra) * ((1 + u) * rb)) = (ra * rb) * (1 + u) ^ 3"
    by (simp add: power3_eq_cube algebra_simps)
  ultimately have Phi: "P \<le> (ra * rb) * (1 + u) ^ 3"
    by simp
  show "Q * (1 - u) ^ 3 \<le> 1 + u" if le: "D \<le> ra * rb"
  proof -
    have "D * (1 - u) ^ 3 \<le> (ra * rb) * (1 - u) ^ 3"
      using le u1 by (intro mult_right_mono) simp_all
    with Plo have "D * (1 - u) ^ 3 \<le> P" by linarith
    then have q1: "(D / P) * (1 - u) ^ 3 \<le> 1"
      using Ppos by (simp add: field_simps)
    have "Q * (1 - u) ^ 3 \<le> ((1 + u) * (D / P)) * (1 - u) ^ 3"
      using Q(2) u1 by (intro mult_right_mono) simp_all
    also have "\<dots> = (1 + u) * ((D / P) * (1 - u) ^ 3)"
      by (simp add: mult.assoc)
    also have "\<dots> \<le> (1 + u) * 1"
      using q1 u2 by (intro mult_left_mono) simp_all
    finally show ?thesis by simp
  qed
  show "1 - u \<le> Q * (1 + u) ^ 3" if eq: "D = ra * rb"
  proof -
    have "P \<le> D * (1 + u) ^ 3"
      using Phi eq by simp
    then have q1: "1 \<le> (D / P) * (1 + u) ^ 3"
      using Ppos by (simp add: field_simps)
    have "(1 - u) * 1 \<le> (1 - u) * ((D / P) * (1 + u) ^ 3)"
      using q1 u1 by (intro mult_left_mono) simp_all
    also have "\<dots> = ((1 - u) * (D / P)) * (1 + u) ^ 3"
      by (simp add: mult.assoc)
    also have "\<dots> \<le> Q * (1 + u) ^ 3"
      using Q(1) u2 by (intro mult_right_mono) simp_all
    finally show ?thesis by simp
  qed
qed

lemma cosine_rounding:
  assumes len: "length ns = length ms"
    and A: "normSq ns < 2 ^ 53" and B: "normSq ms < 2 ^ 53"
    and nz: "normSq ns \<noteq> 0" "normSq ms \<noteq> 0"
  obtains v where "cosineSimilarity (map Num ns) (map Num ms) = Fin v" and "0 \<le> v"
    and "v * (1 - 1 / 2 ^ 53) ^ 3 \<le> 1 + 1 / 2 ^ 53"
    and "ns = ms \<Longrightarrow> 1 - 1 / 2 ^ 53 \<le> v * (1 + 1 / 2 ^ 53) ^ 3"
proof -
  define u :: real where "u = 1 / 2 ^ 53"
  define D where "D = real (natDot ns ms)"
  define ra where "ra = sqrt (real (normSq ns))"
  define rb where "rb = sqrt (real (normSq ms))"
  define sa where "sa = sqrt53 (real (normSq ns))"
  define sb where "sb = sqrt53 (real (normSq ms))"
  define P where "P = round53 (sa * sb)"
  define Q where "Q = round53 (D / P)"
  have u: "0 \<le> u" "u < 1"
    by (simp_all add: u_def)
  have ra: "0 < ra" and rb: "0 < rb"
    using nz by (simp_all add: ra_def rb_def)
  have sa: "(1 - u) * ra \<le> sa" "sa \<le> (1 + u) * ra"
    unfolding u_def ra_def sa_def by (rule sqrt53_bounds, simp)+
  have sb: "(1 - u) * rb \<le> sb" "sb \<le> (1 + u) * rb"
    unfolding u_def rb_def sb_def by (rule sqrt53_bounds, simp)+
  have sa0: "0 < sa" and sb0: "0 < sb"
    using nz by (simp_all add: sa_def sb_def sqrt53_pos)
  then have ss: "0 \<le> sa * sb" by simp
  have P: "(1 - u) * (sa * sb) \<le> P" "P \<le> (1 + u) * (sa * sb)"
    unfolding u_def P_def by (rule round53_bounds [OF ss])+
  have Ppos: "0 < P"
    using sa0 sb0 by (simp add: P_def)
  have D0: "0 \<le> D" by (simp add: D_def)
  then have dp: "0 \<le> D / P"
    using Ppos by simp
  have Q: "(1 - u) * (D / P) \<le> Q" "Q \<le> (1 + u) * (D / P)"
    unfolding u_def Q_def by (rule round53_bounds [OF dp])+
  have Q0: "0 \<le> Q"
    unfolding Q_def using dp by (rule round53_nonneg)
  have Dle: "D \<le> ra * rb"
    unfolding D_def ra_def rb_def by (rule natDot_le_norms)
  have val: "cosineSimilarity (map Num ns) (map Num ms) = Fin Q"
    using nz by (simp add: cosineSimilarity_Num [OF len natDot_small [OF A B] A B]
        Q_def P_def D_def sa_def sb_def)
  have up: "Q * (1 - 1 / 2 ^ 53) ^ 3 \<le> 1 + 1 / 2 ^ 53"
    using rounded_quotient_bounds(1) [OF u ra rb sa sb P Q D0 Dle] unfolding u_def .
  have low: "1 - 1 / 2 ^ 53 \<le> Q * (1 + 1 / 2 ^ 53) ^ 3" if "ns = ms"
  proof -
    have "D = ra * rb"
      using that by (simp add: D_def ra_def rb_def)
    from rounded_quotient_bounds(2) [OF u ra rb sa sb P Q D0 this] show ?thesis
      unfolding u_def .
  qed
  show ?thesis
    using that [OF val Q0 up] low by blast
qed

lemma cosineSimilarity_range:
  assumes "length ns = length ms" and "normSq ns < 2 ^ 53" and "normSq ms < 2 ^ 53"
  shows "\<exists>v. cosineSimilarity (map Num ns) (map Num ms) = Fin v \<and> 0 \<le> v \<and> v \<le> 1 + 1 / 2 ^ 50"
proof (cases "normSq ns = 0 \<or> normSq ms = 0")
  case True
  then have "cosineSimilarity (map Num ns) (map Num ms) = Fin 0"
    using cosineSimilarity_Num [OF assms(1) natDot_small [OF assms(2,3)] assms(2,3)] by auto
  then show ?thesis by simp
next
  case False
  then have nz: "normSq ns \<noteq> 0" "normSq ms \<noteq> 0" by simp_all
  from cosine_rounding [OF assms nz] obtain v
    where v: "cosineSimilarity (map Num ns) (map Num ms) = Fin v" "0 \<le> v"
      "v * (1 - 1 / 2 ^ 53) ^ 3 \<le> 1 + 1 / 2 ^ 53"
    by blast
  have "v * (1 - 1 / 2 ^ 53) ^ 3 \<le> (1 + 1 / 2 ^ 50) * (1 - 1 / 2 ^ 53) ^ 3"
    using v(3) unit_roundoff_upper by linarith
  moreover have "(0 :: real) < (1 - 1 / 2 ^ 53) ^ 3"
    by simp
  ultimately have "v \<le> 1 + 1 / 2 ^ 50"
    by (rule mult_right_le_imp_le)
  with v show ?thesis by blast
qed

lemma cosineSimilarity_self:
  assumes "normSq ns < 2 ^ 53" and "normSq ns \<noteq> 0"
  shows "\<exists>v. cosineSimilarity (map Num ns) (map Num ns) = Fin v \<and> \<bar>v - 1\<bar> \<le> 1 / 2 ^ 50"
proof -
  from cosine_rounding [OF refl assms(1) assms(1) assms(2) assms(2)] obtain v
    where v: "cosineSimilarity (map Num ns) (map Num ns) = Fin v"
      "v * (1 - 1 / 2 ^ 53) ^ 3 \<le> 1 + 1 / 2 ^ 53"
      "1 - 1 / 2 ^ 53 \<le> v * (1 + 1 / 2 ^ 53) ^ 3"
    by blast
  have "v * (1 - 1 / 2 ^ 53) ^ 3 \<le> (1 + 1 / 2 ^ 50) * (1 - 1 / 2 ^ 53) ^ 3"
    using v(2) unit_roundoff_upper by linarith
  moreover have "(0 :: real) < (1 - 1 / 2 ^ 53) ^ 3"
    by simp
  ultimately have up: "v \<le> 1 + 1 / 2 ^ 50"
    by (rule mult_right_le_imp_le)
  have "(1 - 1 / 2 ^ 50) * (1 + 1 / 2 ^ 53) ^ 3 \<le> v * (1 + 1 / 2 ^ 53) ^ 3"
    using v(3) unit_roundoff_lower by linarith
  moreover have "(0 :: real) < (1 + 1 / 2 ^ 53) ^ 3"
    by simp
  ultimately have low: "1 - 1 / 2 ^ 50 \<le> v"
    by (rule mult_right_le_imp_le)
  have "\<bar>v - 1\<bar> \<le> 1 / 2 ^ 50"
    using up low by linarith
  with v(1) show ?thesis by blast
qed

lemma sumSquares_zeros: "sumSquares (replicate n (Num 0)) = Fin 0"
proof -
  have "foldl (\<lambda>acc val. fadd acc (fmul (toNumber val) (toNumber val))) (Fin 0) (replicate n (Num 0)) = Fin 0"
    by (induction n) simp_all
  then show ?thesis by (simp add: sumSquares_def)
qed

lemma cosineSimilarity_zero_vector: "cosineSimilarity (replicate n (Num 0)) b = Fin 0"
  by (simp add: cosineSimilarity_def Let_def sumSquares_zeros)

text \<open>
  Claim C4, amended. For vectors of 100 non-negative integer counts whose sums of squares
  are below \<open>2^53\<close> (every embedding of a text of fewer than \<open>2^26\<close> words), the similarity is
  a number between 0 and \<open>1 + 2^-50\<close>; the similarity of a non-zero vector to itself is
  within \<open>2^-50\<close> of 1; and the similarity of the zero vector to any array is 0.
\<close>

theorem cosine_bounds_up_to_rounding:
  assumes "length ns = 100" and "length ms = 100"
    and "normSq ns < 2 ^ 53" and "normSq ms < 2 ^ 53"
  shows "(\<exists>v. cosineSimilarity (map Num ns) (map Num ms) = Fin v \<and> 0 \<le> v \<and> v \<le> 1 + 1 / 2 ^ 50)
       \<and> (normSq ns \<noteq> 0 \<longrightarrow>
            (\<exists>v. cosineSimilarity (map Num ns) (map Num ns) = Fin v \<and> \<bar>v - 1\<bar> \<le> 1 / 2 ^ 50))
       \<and> (\<forall>b. cosineSimilarity (replicate 100 (Num 0)) b = Fin 0)"
proof (intro conjI impI allI)
  have "length ns = length ms"
    using assms(1,2) by simp
  then show "\<exists>v. cosineSimilarity (map Num ns) (map Num ms) = Fin v \<and> 0 \<le> v \<and> v \<le> 1 + 1 / 2 ^ 50"
    using assms(3,4) by (rule cosineSimilarity_range)
next
  assume "normSq ns \<noteq> 0"
  with assms(3) show "\<exists>v. cosineSimilarity (map Num ns) (map Num ns) = Fin v \<and> \<bar>v - 1\<bar> \<le> 1 / 2 ^ 50"
    by (rule cosineSimilarity_self)
next
  fix b
  show "cosineSimilarity (replicate 100 (Num 0)) b = Fin 0"
    by (rule cosineSimilarity_zero_vector)
qed

lemma threeOnesCounts_facts:
  "length threeOnesCounts = 100" "normSq threeOnesCounts = 3"
  by (simp_all add: threeOnesCounts_def)

theorem cosine_bounds_up_to_rounding_witness:
  "length threeOnesCounts = 100 \<and> length queryCounts = 100
   \<and> normSq threeOnesCounts < 2 ^ 53 \<and> normSq queryCounts < 2 ^ 53
   \<and> normSq threeOnesCounts \<noteq> 0
   \<and> (\<exists>v. cosineSimilarity (map Num threeOnesCounts) (map Num queryCounts) = Fin v
          \<and> 0 \<le> v \<and> v \<le> 1 + 1 / 2 ^ 50)
   \<and> (\<exists>v. cosineSimilarity (map Num threeOnesCounts) (map Num threeOnesCounts) = Fin v
          \<and> \<bar>v - 1\<bar> \<le> 1 / 2 ^ 50)
   \<and> cosineSimilarity (replicate 100 (Num 0)) (map Num queryCounts) = Fin 0"
proof -
  have l: "length threeOnesCounts = 100" "length queryCounts = 100"
    by (simp_all add: threeOnesCounts_facts scenario_counts)
  have n: "normSq threeOnesCounts < 2 ^ 53" "normSq queryCounts < 2 ^ 53"
    by (simp_all add: threeOnesCounts_facts scenario_counts)
  have z: "normSq threeOnesCounts \<noteq> 0"
    by (simp add: threeOnesCounts_facts)
  note t = cosine_bounds_up_to_rounding [OF l n]
  note t1 = t [THEN conjunct1]
  note t2 = t [THEN conjunct2, THEN conjunct1, THEN mp, OF z]
  note t3 = t [THEN conjunct2, THEN conjunct2, THEN spec, of "map Num queryCounts"]
  show ?thesis
    using l n z t1 t2 t3 by (intro conjI)
qed

section \<open>The embedding counts the words\<close>

lemma countOf_Num [simp]: "countOf (Num n) = n"
  by (simp add: countOf_def)

lemma tableTotal_simps [simp]:
  "tableTotal [] = 0" "tableTotal ((k, v) # own) = countOf v + tableTotal own"
  "tableTotal (own @ own') = tableTotal own + tableTotal own'"
  by (simp_all add: tableTotal_def)

lemma tableTotal_update:
  assumes "distinct (map fst own)" and "map_of own w = Some (Num n)"
  shows "tableTotal (map (\<lambda>(k, x). if k = w then (k, Num (Suc n)) else (k, x)) own)
           = Suc (tableTotal own)"
  using assms
proof (induction own)
  case Nil
  then show ?case by simp
next
  case (Cons p own)
  obtain k v where p: "p = (k, v)" by (cases p)
  show ?case
  proof (cases "k = w")
    case True
    then have v: "v = Num n"
      using Cons.prems(2) by (simp add: p)
    have "w \<notin> fst ` set own"
      using Cons.prems(1) True by (simp add: p)
    then have "map (\<lambda>(k, x). if k = w then (k, Num (Suc n)) else (k, x)) own = own"
      by (intro map_idI) force
    then show ?thesis
      using True by (simp add: p v)
  next
    case False
    then have "map_of own w = Some (Num n)"
      using Cons.prems(2) by (simp add: p)
    moreover have "distinct (map fst own)"
      using Cons.prems(1) by simp
    ultimately show ?thesis
      using False Cons.IH by (simp add: p)
  qed
qed

lemma fst_update_keys:
  "map fst (map (\<lambda>(k, x). if k = w then (k, v) else (k, x)) own) = map fst own"
  by (induction own) auto

lemma countWord_counting:
  assumes "counting own" and "w \<noteq> ''constructor''" and "w \<noteq> ''__proto__''"
  shows "counting (countWord own w) \<and> tableTotal (countWord own w) = Suc (tableTotal own)"
proof (cases "map_of own w")
  case None
  then have notin: "w \<notin> fst ` set own"
    by (simp add: map_of_eq_None_iff)
  have g: "getProp own w = None"
    using None assms(2,3) by (simp add: getProp_def)
  have cw: "countWord own w = own @ [(w, Num 1)]"
    using notin assms(3) by (simp add: countWord_def setProp_def g orZero_def)
  show ?thesis
    using assms(1) notin by (auto simp add: cw counting_def)
next
  case (Some v)
  then have mem: "(w, v) \<in> set own"
    by (rule map_of_SomeD)
  then have "isNum v"
    using assms(1) by (force simp add: counting_def)
  then obtain n where v: "v = Num n"
    by (auto dest: isNumE)
  have "orZero (getProp own w) = Num n"
    using Some v by (cases "n = 0") (simp_all add: getProp_def orZero_def)
  moreover have "w \<in> fst ` set own"
    using mem by force
  ultimately have cw: "countWord own w
      = map (\<lambda>(k, x). if k = w then (k, Num (Suc n)) else (k, x)) own"
    using assms(3) by (simp add: countWord_def setProp_def)
  have d: "distinct (map fst own)"
    using assms(1) by (simp add: counting_def)
  have "tableTotal (countWord own w) = Suc (tableTotal own)"
    unfolding cw using d Some v by (intro tableTotal_update) simp_all
  moreover have "distinct (map fst (countWord own w))"
    unfolding cw fst_update_keys by (rule d)
  moreover have "\<forall>x \<in> snd ` set (countWord own w). isNum x"
    using assms(1,2) by (intro countWord_isNum) (simp_all add: counting_def)
  ultimately show ?thesis
    by (simp add: counting_def)
qed

lemma foldl_countWord_counting:
  "counting own \<Longrightarrow> \<forall>w \<in> set ws. w \<noteq> ''constructor'' \<and> w \<noteq> ''__proto__'' \<Longrightarrow>
   counting (foldl countWord own ws)
   \<and> tableTotal (foldl countWord own ws) = tableTotal own + length ws"
proof (induction ws arbitrary: own)
  case Nil
  then show ?case by simp
next
  case (Cons w ws)
  have w: "w \<noteq> ''constructor''" "w \<noteq> ''__proto__''"
    using Cons.prems(2) by (simp_all del: list.inject)
  from countWord_counting [OF Cons.prems(1) w]
  have c: "counting (countWord own w)" and t: "tableTotal (countWord own w) = Suc (tableTotal own)"
    by simp_all
  have rest: "\<forall>w \<in> set ws. w \<noteq> ''constructor'' \<and> w \<noteq> ''__proto__''"
    using Cons.prems(2) by (simp del: list.inject)
  from Cons.IH [OF c rest] show ?case
    by (simp add: t)
qed

lemma tableTotal_insort:
  "tableTotal (insort_key f x xs) = tableTotal [x] + tableTotal xs"
  by (induction xs) (simp_all add: tableTotal_def)

lemma tableTotal_sort: "tableTotal (sort_key f xs) = tableTotal xs"
  by (induction xs) (simp_all add: tableTotal_insort, simp add: tableTotal_def)

lemma tableTotal_filter:
  "tableTotal (filter P xs) + tableTotal (filter (\<lambda>x. \<not> P x) xs) = tableTotal xs"
  by (induction xs) (simp_all add: tableTotal_def)

lemma tableTotal_entries: "tableTotal (entries own) = tableTotal own"
  unfolding entries_def
  using tableTotal_filter [of "\<lambda>(k, v). isArrayIndex k" own]
  by (simp add: tableTotal_sort case_prod_unfold)

lemma bucket_less: "bucket w < 100"
  by (simp add: bucket_def)

lemma vectorTotal_update:
  assumes "i < length embedding"
  shows "vectorTotal (embedding[i := v]) + countOf (embedding ! i) = vectorTotal embedding + countOf v"
  using assms
proof (induction embedding arbitrary: i)
  case Nil
  then show ?case by simp
next
  case (Cons x xs)
  then show ?case
    by (cases i) (simp_all add: vectorTotal_def)
qed

lemma addAt_total:
  assumes "list_all isNum embedding" and "isNum (snd e)" and "length embedding = 100"
  shows "vectorTotal (addAt embedding e) = vectorTotal embedding + countOf (snd e)"
proof -
  obtain word freq where p: "e = (word, freq)" by (cases e)
  from assms(2) p obtain n where f: "freq = Num n" by (auto dest: isNumE)
  have i: "bucket word < length embedding"
    using assms(3) bucket_less by simp
  with assms(1) have "isNum (embedding ! bucket word)"
    by (simp add: list_all_length)
  then obtain m where m: "embedding ! bucket word = Num m"
    by (auto dest: isNumE)
  have "addAt embedding e = embedding[bucket word := Num (m + n)]"
    by (simp add: addAt_def p f m)
  then show ?thesis
    using vectorTotal_update [OF i, of "Num (m + n)"] by (simp add: m p f)
qed

lemma foldl_addAt_total:
  "list_all isNum embedding \<Longrightarrow> length embedding = 100 \<Longrightarrow> \<forall>e \<in> set es. isNum (snd e) \<Longrightarrow>
   list_all isNum (foldl addAt embedding es) \<and> length (foldl addAt embedding es) = 100
   \<and> vectorTotal (foldl addAt embedding es) = vectorTotal embedding + tableTotal es"
proof (induction es arbitrary: embedding)
  case Nil
  then show ?case by simp
next
  case (Cons e es)
  have e: "isNum (snd e)" and es: "\<forall>e \<in> set es. isNum (snd e)"
    using Cons.prems(3) by simp_all
  have a: "list_all isNum (addAt embedding e)"
    using Cons.prems(1) e by (rule addAt_isNum)
  have l: "length (addAt embedding e) = 100"
    using Cons.prems(2) by simp
  have t: "vectorTotal (addAt embedding e) = vectorTotal embedding + countOf (snd e)"
    using Cons.prems(1) e Cons.prems(2) by (rule addAt_total)
  obtain k v where p: "e = (k, v)" by (cases e)
  from Cons.IH [OF a l es] t show ?case
    by (simp add: p)
qed

lemma vectorTotal_map_Num: "vectorTotal (map Num ns) = sum_list ns"
  by (induction ns) (simp_all add: vectorTotal_def)

text \<open>
  On every text none of whose words is \<open>constructor\<close> or \<open>__proto__\<close>, the
  embedding is a vector of 100 non-negative integers whose sum is the number of words
  matched in the lower-cased text.
\<close>

theorem embedding_counts_tokens:
  assumes "''constructor'' \<notin> set (matchWords (toLowerCase s) [])"
    and "''__proto__'' \<notin> set (matchWords (toLowerCase s) [])"
  shows "\<exists>ns. createSimpleEmbedding s = map Num ns \<and> length ns = 100
           \<and> sum_list ns = length (matchWords (toLowerCase s) [])"
proof -
  let ?ws = "matchWords (toLowerCase s) []"
  have ws: "\<forall>w \<in> set ?ws. w \<noteq> ''constructor'' \<and> w \<noteq> ''__proto__''"
    using assms by blast
  have c0: "counting []"
    by (simp add: counting_def)
  from foldl_countWord_counting [OF c0 ws]
  have c: "counting (wordFreqOf s)" and t: "tableTotal (wordFreqOf s) = length ?ws"
    by (simp_all add: wordFreqOf_def)
  have es: "\<forall>e \<in> set (entries (wordFreqOf s)). isNum (snd e)"
    using c by (simp add: set_entries counting_def)
  have z: "list_all isNum (replicate 100 (Num 0))" "length (replicate 100 (Num 0 :: jsval)) = 100"
    by (simp_all add: list_all_iff isNum_def)
  have v0: "vectorTotal (replicate 100 (Num 0)) = 0"
    by (simp add: vectorTotal_def)
  from foldl_addAt_total [OF z es]
  have n: "list_all isNum (createSimpleEmbedding s)"
    and l: "length (createSimpleEmbedding s) = 100"
    and v: "vectorTotal (createSimpleEmbedding s) = length ?ws"
    by (simp_all add: createSimpleEmbedding_def v0 tableTotal_entries t)
  from n obtain ns where ns: "createSimpleEmbedding s = map Num ns"
    by (auto dest: list_all_isNum_map)
  have "length ns = 100"
    using l by (simp add: ns)
  moreover have "sum_list ns = length ?ws"
    using v by (simp add: ns vectorTotal_map_Num)
  ultimately show ?thesis
    using ns by blast
qed

text \<open>The same at \<open>"Apple Apple Banana"\<close>: three words, and the components sum to 3.\<close>

theorem embedding_counts_tokens_example:
  "''constructor'' \<notin> set (matchWords (toLowerCase ''Apple Apple Banana'') [])
   \<and> ''__proto__'' \<notin> set (matchWords (toLowerCase ''Apple Apple Banana'') [])
   \<and> (\<exists>ns. createSimpleEmbedding ''Apple Apple Banana'' = map Num ns \<and> length ns = 100
          \<and> sum_list ns = 3)"
proof -
  have ws: "matchWords (toLowerCase ''Apple Apple Banana'') [] = [''apple'', ''apple'', ''banana'']"
    by code_simp
  have c: "''constructor'' \<notin> set (matchWords (toLowerCase ''Apple Apple Banana'') [])"
    and p: "''__proto__'' \<notin> set (matchWords (toLowerCase ''Apple Apple Banana'') [])"
    unfolding ws by simp_all
  from embedding_counts_tokens [OF c p] c p show ?thesis
    unfolding ws by (simp add: eval_nat_numeral)
qed

section \<open>The strings of an embedding\<close>

lemma countOrText_simps [simp]:
  "countOrText (Num n)" "countOrText (Str s) = (CHR ''f'' \<in> set s)"
  "\<not> countOrText ObjectCtor" "\<not> countOrText ObjectProto"
  by (simp_all add: countOrText_def)

lemma countOrText_jsAdd:
  "countOrText x \<Longrightarrow> countOrText y \<Longrightarrow> countOrText (jsAdd x y)"
  by (cases x; cases y) auto

lemma countOrText_jsAdd_ctor: "countOrText (jsAdd ObjectCtor y)"
  by simp

lemma countOrText_orZero:
  assumes "\<forall>v \<in> snd ` set own. countOrText v" and "w \<noteq> ''__proto__''"
  shows "countOrText (jsAdd (orZero (getProp own w)) (Num 1))"
proof (cases "map_of own w")
  case None
  then show ?thesis
    using assms(2) by (simp add: getProp_def orZero_def)
next
  case (Some v)
  then have "(w, v) \<in> set own"
    by (rule map_of_SomeD)
  then have "countOrText v"
    using assms(1) by force
  then have "countOrText (orZero (Some v))"
    by (simp add: orZero_def)
  then show ?thesis
    using Some by (simp add: getProp_def countOrText_jsAdd)
qed

lemma countWord_countOrText:
  assumes "\<forall>v \<in> snd ` set own. countOrText v"
  shows "\<forall>v \<in> snd ` set (countWord own w). countOrText v"
proof (cases "w = ''__proto__''")
  case True
  then show ?thesis
    using assms by (simp add: countWord_def setProp_def)
next
  case False
  have n: "countOrText (jsAdd (orZero (getProp own w)) (Num 1))"
    using assms False by (rule countOrText_orZero)
  show ?thesis
    using assms n False by (auto simp add: countWord_def setProp_def split: if_splits)
qed

lemma wordFreqOf_countOrText: "\<forall>v \<in> snd ` set (wordFreqOf s). countOrText v"
proof -
  have step: "\<forall>v \<in> snd ` set (foldl countWord own ws). countOrText v"
    if "\<forall>v \<in> snd ` set own. countOrText v" for own ws
    using that
  proof (induction ws arbitrary: own)
    case Nil
    then show ?case by simp
  next
    case (Cons w ws)
    have "\<forall>v \<in> snd ` set (countWord own w). countOrText v"
      using Cons.prems by (rule countWord_countOrText)
    then have "\<forall>v \<in> snd ` set (foldl countWord (countWord own w) ws). countOrText v"
      by (rule Cons.IH)
    then show ?case by simp
  qed
  have "\<forall>v \<in> snd ` set ([] :: (string \<times> jsval) list). countOrText v"
    by simp
  then show ?thesis
    unfolding wordFreqOf_def by (rule step)
qed

lemma addAt_countOrText:
  assumes "list_all countOrText embedding" and "countOrText (snd e)"
  shows "list_all countOrText (addAt embedding e)"
proof -
  obtain word freq where p: "e = (word, freq)" by (cases e)
  show ?thesis
  proof (cases "bucket word < length embedding")
    case True
    with assms(1) have "countOrText (embedding ! bucket word)"
      by (simp add: list_all_length)
    then have "countOrText (jsAdd (embedding ! bucket word) freq)"
      using assms(2) by (simp add: p countOrText_jsAdd)
    then show ?thesis
      using assms(1) True by (simp add: addAt_def p Let_def list_all_length nth_list_update)
  next
    case False
    then show ?thesis
      using assms(1) by (simp add: addAt_def p Let_def list_update_beyond)
  qed
qed

text \<open>
  Every component of an embedding is a count or a string containing the letter \<open>f\<close>
  (from the text of the function \<open>Object\<close>): no stored string spells a number, which is
  why \<open>toNumber\<close> sends every string of the program to \<open>NaN\<close>.
\<close>

theorem stored_strings_spell_no_number:
  "list_all countOrText (createSimpleEmbedding s)"
proof -
  have step: "list_all countOrText (foldl addAt embedding es)"
    if "list_all countOrText embedding" and "\<forall>e \<in> set es. countOrText (snd e)" for embedding es
    using that
  proof (induction es arbitrary: embedding)
    case Nil
    then show ?case by simp
  next
    case (Cons e es)
    have "list_all countOrText (addAt embedding e)"
      using Cons.prems by (intro addAt_countOrText) simp_all
    moreover have "\<forall>e \<in> set es. countOrText (snd e)"
      using Cons.prems(2) by simp
    ultimately have "list_all countOrText (foldl addAt (addAt embedding e) es)"
      by (rule Cons.IH)
    then show ?case by simp
  qed
  have "list_all countOrText (replicate 100 (Num 0))"
    by (simp add: list_all_iff)
  moreover have "\<forall>e \<in> set (entries (wordFreqOf s)). countOrText (snd e)"
    using wordFreqOf_countOrText [of s] by (simp add: set_entries)
  ultimately show ?thesis
    unfolding createSimpleEmbedding_def by (rule step)
qed

end
